theory Spec2Isabelle
  imports Complex_Main "HOL-Library.Log_Nat" "HOL-Library.Multiset"
begin

section \<open>Run statistics (\<open>vid_folder_cut_frame.py\<close>, class \<open>ProcessingStats\<close>)\<close>

text \<open>
  One entry of \<open>video_stats\<close> is the dictionary \<open>{'frames': .., 'extracted': ..}\<close>.
  Python integers are unbounded, hence \<open>int\<close>. The dictionary \<open>video_stats\<close> is an
  association list in insertion order, as a Python \<open>dict\<close> is; a \<open>defaultdict\<close>
  creates the entry \<open>{'frames': 0, 'extracted': 0}\<close> at the end of the dictionary
  when a missing key is read.
\<close>

record video_stat =
  frames :: int
  extracted :: int

record ProcessingStats =
  total_videos :: int
  processed_videos :: int
  total_frames :: int
  extracted_frames :: int
  video_stats :: "(string \<times> video_stat) list"

definition init_stats :: ProcessingStats where
  "init_stats = \<lparr>total_videos = 0, processed_videos = 0, total_frames = 0,
     extracted_frames = 0, video_stats = []\<rparr>"

definition default_stat :: video_stat where
  "default_stat = \<lparr>frames = 0, extracted = 0\<rparr>"

text \<open>\<open>d[k]\<close> on a \<open>defaultdict\<close>: the entry, created with the default when missing.\<close>

definition touch :: "string \<Rightarrow> (string \<times> video_stat) list \<Rightarrow> (string \<times> video_stat) list" where
  "touch k d = (case map_of d k of None \<Rightarrow> d @ [(k, default_stat)] | Some _ \<Rightarrow> d)"

text \<open>\<open>d[k][field] = v\<close>: the entry of \<open>k\<close> (created if missing) with one field stored.\<close>

definition set_field ::
  "(video_stat \<Rightarrow> video_stat) \<Rightarrow> string \<Rightarrow> (string \<times> video_stat) list \<Rightarrow> (string \<times> video_stat) list" where
  "set_field f k d = map (\<lambda>(k', s). if k' = k then (k', f s) else (k', s)) (touch k d)"

definition update_video_stats :: "string \<Rightarrow> int \<Rightarrow> int \<Rightarrow> ProcessingStats \<Rightarrow> ProcessingStats" where
  "update_video_stats video_name tf ef st =
     (let d1 = set_field (\<lambda>s. s\<lparr>frames := tf\<rparr>) video_name (video_stats st);
          d2 = set_field (\<lambda>s. s\<lparr>extracted := ef\<rparr>) video_name d1
      in st\<lparr>video_stats := d2,
            total_frames := total_frames st + tf,
            extracted_frames := extracted_frames st + ef,
            processed_videos := processed_videos st + 1\<rparr>)"

text \<open>A sequence of calls, each with its arguments \<open>(video_name, total_frames, extracted_frames)\<close>.\<close>

fun record_all :: "(string \<times> int \<times> int) list \<Rightarrow> ProcessingStats \<Rightarrow> ProcessingStats" where
  "record_all [] st = st"
| "record_all ((name, tf, ef) # calls) st = record_all calls (update_video_stats name tf ef st)"

text \<open>The aggregate-consistency invariant.\<close>

definition stats_consistent :: "ProcessingStats \<Rightarrow> bool" where
  "stats_consistent st \<longleftrightarrow>
     total_frames st = sum_list (map (frames \<circ> snd) (video_stats st)) \<and>
     extracted_frames st = sum_list (map (extracted \<circ> snd) (video_stats st)) \<and>
     processed_videos st = int (length (video_stats st)) \<and>
     distinct (map fst (video_stats st))"

lemma set_field_fresh:
  "k \<notin> fst ` set d \<Longrightarrow> set_field f k d = d @ [(k, f default_stat)]"
proof -
  assume fresh: "k \<notin> fst ` set d"
  then have none: "map_of d k = None"
    by (simp add: map_of_eq_None_iff)
  have same: "map (\<lambda>(k', s). if k' = k then (k', f s) else (k', s)) d = d"
    using fresh by (induction d) auto
  show ?thesis
    by (simp add: set_field_def touch_def none same)
qed

lemma set_field_last:
  "k \<notin> fst ` set d \<Longrightarrow> set_field f k (d @ [(k, s)]) = d @ [(k, f s)]"
proof -
  assume fresh: "k \<notin> fst ` set d"
  from fresh have none: "map_of d k = None"
    by (simp add: map_of_eq_None_iff)
  have some: "map_of (d @ [(k, s)]) k = Some s"
    by (simp add: map_add_def none)
  have same: "map (\<lambda>(k', s). if k' = k then (k', f s) else (k', s)) d = d"
    using fresh by (induction d) auto
  have "touch k (d @ [(k, s)]) = d @ [(k, s)]"
    unfolding touch_def some by simp
  then show ?thesis
    by (simp add: set_field_def same)
qed

lemma update_video_stats_fresh:
  assumes "name \<notin> fst ` set (video_stats st)"
  shows "update_video_stats name tf ef st =
     st\<lparr>video_stats := video_stats st @ [(name, \<lparr>frames = tf, extracted = ef\<rparr>)],
        total_frames := total_frames st + tf,
        extracted_frames := extracted_frames st + ef,
        processed_videos := processed_videos st + 1\<rparr>"
  using assms
  by (simp add: update_video_stats_def Let_def set_field_fresh set_field_last default_stat_def)

lemma update_preserves_consistent:
  assumes "stats_consistent st" and "name \<notin> fst ` set (video_stats st)"
  shows "stats_consistent (update_video_stats name tf ef st)"
  using assms by (simp add: update_video_stats_fresh stats_consistent_def)

lemma update_keys:
  "name \<notin> fst ` set (video_stats st) \<Longrightarrow>
   map fst (video_stats (update_video_stats name tf ef st)) = map fst (video_stats st) @ [name]"
  by (simp add: update_video_stats_fresh)

lemma record_all_keys:
  "distinct (map fst calls) \<Longrightarrow> fst ` set calls \<inter> fst ` set (video_stats st) = {} \<Longrightarrow>
   map fst (video_stats (record_all calls st)) = map fst (video_stats st) @ map fst calls"
proof (induction calls arbitrary: st)
  case Nil
  then show ?case by simp
next
  case (Cons c calls)
  obtain name tf ef where c: "c = (name, tf, ef)" by (cases c) auto
  have fresh: "name \<notin> fst ` set (video_stats st)"
    using Cons.prems(2) c by auto
  have keys: "map fst (video_stats (update_video_stats name tf ef st)) = map fst (video_stats st) @ [name]"
    using fresh by (rule update_keys)
  have disj: "fst ` set calls \<inter> fst ` set (video_stats (update_video_stats name tf ef st)) = {}"
    using Cons.prems c by (auto simp: update_video_stats_fresh [OF fresh])
  show ?case
    using Cons.IH [OF _ disj] Cons.prems(1) by (simp add: c keys)
qed

lemma record_all_consistent:
  "stats_consistent st \<Longrightarrow> distinct (map fst calls) \<Longrightarrow>
   fst ` set calls \<inter> fst ` set (video_stats st) = {} \<Longrightarrow>
   stats_consistent (record_all calls st)"
proof (induction calls arbitrary: st)
  case Nil
  then show ?case by simp
next
  case (Cons c calls)
  obtain name tf ef where c: "c = (name, tf, ef)" by (cases c) auto
  have fresh: "name \<notin> fst ` set (video_stats st)"
    using Cons.prems(3) c by auto
  have step: "stats_consistent (update_video_stats name tf ef st)"
    using Cons.prems(1) fresh by (rule update_preserves_consistent)
  have keys: "fst ` set (video_stats (update_video_stats name tf ef st))
      = insert name (fst ` set (video_stats st))"
    by (simp add: update_video_stats_fresh [OF fresh])
  have disj: "fst ` set calls \<inter> fst ` set (video_stats (update_video_stats name tf ef st)) = {}"
    using Cons.prems(2,3) c unfolding keys by auto
  have "stats_consistent (record_all calls (update_video_stats name tf ef st))"
    using Cons.IH [OF step _ disj] Cons.prems(2) by simp
  then show ?case by (simp add: c)
qed


text \<open>
  C9. Starting from a fresh \<open>ProcessingStats\<close> object, after any sequence of calls of
  \<open>update_video_stats\<close> in which no video name occurs twice, \<open>total_frames\<close> is the sum
  of the per-video \<open>'frames'\<close> entries, \<open>extracted_frames\<close> is the sum of the per-video
  \<open>'extracted'\<close> entries, and \<open>processed_videos\<close> is the number of per-video entries;
  the per-video table holds exactly the recorded values, in call order.
\<close>

theorem stats_aggregate_invariant:
  assumes "distinct (map fst calls)"
  shows "total_frames (record_all calls init_stats)
           = sum_list (map (frames \<circ> snd) (video_stats (record_all calls init_stats)))
       \<and> extracted_frames (record_all calls init_stats)
           = sum_list (map (extracted \<circ> snd) (video_stats (record_all calls init_stats)))
       \<and> processed_videos (record_all calls init_stats)
           = int (length (video_stats (record_all calls init_stats)))
       \<and> map fst (video_stats (record_all calls init_stats)) = map fst calls"
proof -
  have init: "stats_consistent init_stats"
    by (simp add: stats_consistent_def init_stats_def)
  have "stats_consistent (record_all calls init_stats)"
    using init assms by (rule record_all_consistent) (simp add: init_stats_def)
  moreover have "map fst (video_stats (record_all calls init_stats)) = map fst calls"
    using record_all_keys [OF assms, of init_stats] by (simp add: init_stats_def)
  ultimately show ?thesis
    by (simp add: stats_consistent_def)
qed

theorem stats_aggregate_invariant_witness:
  "distinct (map fst [(''a.mp4'', 101::int, 11::int), (''b.avi'', 7, 3)])
   \<and> total_frames (record_all [(''a.mp4'', 101, 11), (''b.avi'', 7, 3)] init_stats) = 108
   \<and> extracted_frames (record_all [(''a.mp4'', 101, 11), (''b.avi'', 7, 3)] init_stats) = 14
   \<and> processed_videos (record_all [(''a.mp4'', 101, 11), (''b.avi'', 7, 3)] init_stats) = 2
   \<and> video_stats (record_all [(''a.mp4'', 101, 11), (''b.avi'', 7, 3)] init_stats)
       = [(''a.mp4'', \<lparr>frames = 101, extracted = 11\<rparr>), (''b.avi'', \<lparr>frames = 7, extracted = 3\<rparr>)]"
proof -
  have d: "distinct (map fst [(''a.mp4'', 101::int, 11::int), (''b.avi'', 7, 3)])"
    by simp
  have v: "video_stats (record_all [(''a.mp4'', 101, 11), (''b.avi'', 7, 3)] init_stats)
       = [(''a.mp4'', \<lparr>frames = 101, extracted = 11\<rparr>), (''b.avi'', \<lparr>frames = 7, extracted = 3\<rparr>)]"
    by (simp add: update_video_stats_def set_field_def touch_def init_stats_def default_stat_def)
  show ?thesis
    using stats_aggregate_invariant [OF d] unfolding v by simp
qed

text \<open>
  The proviso matters: recording the same name twice overwrites the per-video entry
  while the aggregates keep both contributions.
\<close>

lemma repeated_name_breaks_sum:
  "total_frames (record_all [(''a.mp4'', 5, 1), (''a.mp4'', 7, 1)] init_stats) = 12
   \<and> video_stats (record_all [(''a.mp4'', 5, 1), (''a.mp4'', 7, 1)] init_stats)
       = [(''a.mp4'', \<lparr>frames = 7, extracted = 1\<rparr>)]"
  by (simp add: update_video_stats_def set_field_def touch_def init_stats_def default_stat_def)


section \<open>Strings: decimal numbers, suffixes, extensions\<close>

text \<open>
  File names are ASCII strings. \<open>str_nat\<close> is Python's \<open>str\<close> on a non-negative
  integer, \<open>str_int\<close> on any integer, \<open>format_05d\<close> the format specification
  \<open>:05d\<close> on a non-negative integer: the decimal digits, padded with zeros on the left
  to a width of at least five.
\<close>

definition digit_char :: "nat \<Rightarrow> char" where
  "digit_char d = ''0123456789'' ! d"

fun str_nat :: "nat \<Rightarrow> string" where
  "str_nat n = (if n < 10 then [digit_char n] else str_nat (n div 10) @ [digit_char (n mod 10)])"

declare str_nat.simps [simp del]

definition str_int :: "int \<Rightarrow> string" where
  "str_int i = (if i < 0 then CHR ''-'' # str_nat (nat (- i)) else str_nat (nat i))"

definition format_05d :: "nat \<Rightarrow> string" where
  "format_05d n = replicate (5 - length (str_nat n)) CHR ''0'' @ str_nat n"

text \<open>\<open>str.lower\<close> on ASCII, \<open>str.endswith\<close> with one suffix and with a tuple of suffixes.\<close>

definition lower_char :: "char \<Rightarrow> char" where
  "lower_char c =
     (case map_of (zip ''ABCDEFGHIJKLMNOPQRSTUVWXYZ'' ''abcdefghijklmnopqrstuvwxyz'') c of
        Some l \<Rightarrow> l
      | None \<Rightarrow> c)"

definition lower :: "string \<Rightarrow> string" where
  "lower s = map lower_char s"

definition endswith :: "string \<Rightarrow> string \<Rightarrow> bool" where
  "endswith s suf \<longleftrightarrow> length suf \<le> length s \<and> drop (length s - length suf) s = suf"

definition endswith_any :: "string \<Rightarrow> string list \<Rightarrow> bool" where
  "endswith_any s sufs = list_ex (endswith s) sufs"

text \<open>
  \<open>os.path.splitext\<close> on a name without directory separators (the names that
  \<open>os.listdir\<close> returns): the extension starts at the last dot, unless only dots
  precede it, in which case the extension is empty.
\<close>

definition splitext :: "string \<Rightarrow> string \<times> string" where
  "splitext p =
     (case dropWhile (\<lambda>c. c \<noteq> CHR ''.'') (rev p) of
        [] \<Rightarrow> (p, [])
      | dot # root_rev \<Rightarrow>
          if list_ex (\<lambda>c. c \<noteq> CHR ''.'') root_rev
          then (rev root_rev, CHR ''.'' # rev (takeWhile (\<lambda>c. c \<noteq> CHR ''.'') (rev p)))
          else (p, []))"


section \<open>Frame extraction (\<open>vid_folder_cut_frame.py\<close>, \<open>extract_frames\<close>)\<close>

text \<open>
  The decoder is an external library; a file of the input folder is described by what
  the decoder does with it. \<open>Unopenable c\<close>: \<open>cv2.VideoCapture\<close> cannot open the file,
  \<open>isOpened()\<close> is false, and \<open>int(cap.get(CAP_PROP_FRAME_COUNT))\<close> is \<open>c\<close>, the
  number the library returns for a capture that is not open (0 or -1, depending on
  its version; the code does not choose it). \<open>Openable c fs\<close>: the capture opens,
  \<open>int(cap.get(CAP_PROP_FRAME_COUNT))\<close> is \<open>c\<close> (the count the container reports,
  which need not be the number of decodable frames), and \<open>read()\<close> delivers the
  frames \<open>fs\<close> in order and then fails. The property is taken to be a finite number,
  so that \<open>int\<close> does not raise. A frame is a value of an arbitrary type \<open>'f\<close>.
\<close>

datatype 'f video = Unopenable int | Openable int "'f list"

datatype 'f entry = Directory | RegularFile "'f video"

datatype py_error = ZeroDivisionError | ValueError | OverflowError

record 'f VideoCapture =
  isOpened :: bool
  frame_count_prop :: int
  pending :: "'f list"

fun open_capture :: "'f video \<Rightarrow> 'f VideoCapture" where
  "open_capture (Unopenable c) = \<lparr>isOpened = False, frame_count_prop = c, pending = []\<rparr>"
| "open_capture (Openable c fs) = \<lparr>isOpened = True, frame_count_prop = c, pending = fs\<rparr>"

definition frame_filename :: "string \<Rightarrow> nat \<Rightarrow> string" where
  "frame_filename video_name_without_ext saved_frame_count =
     video_name_without_ext @ ''_frame_'' @ format_05d saved_frame_count @ ''.jpg''"

text \<open>
  The \<open>while\<close> loop over one opened capture. The arguments are the frames that
  \<open>read()\<close> will still deliver, \<open>frame_count\<close>, \<open>saved_frame_count\<close> and the
  \<open>cv2.imwrite\<close> calls made so far, each a pair of file name and frame. An
  exhausted capture makes \<open>read()\<close> return \<open>ret = False\<close> and the loop breaks.
  \<open>frame_count % n\<close> raises \<open>ZeroDivisionError\<close> for \<open>n = 0\<close>; for other \<open>n\<close>
  Python's \<open>%\<close> is the \<open>mod\<close> of \<open>int\<close> (the sign of the divisor). Both counters start
  at 0 and only grow, so they are natural numbers.
\<close>

fun frame_loop ::
  "int \<Rightarrow> string \<Rightarrow> 'f list \<Rightarrow> nat \<Rightarrow> nat \<Rightarrow> (string \<times> 'f) list
   \<Rightarrow> py_error + (nat \<times> nat \<times> (string \<times> 'f) list)" where
  "frame_loop n base [] frame_count saved_frame_count writes =
     Inr (frame_count, saved_frame_count, writes)"
| "frame_loop n base (frame # rest) frame_count saved_frame_count writes =
     (if n = 0 then Inl ZeroDivisionError
      else if int frame_count mod n = 0
      then frame_loop n base rest (frame_count + 1) (saved_frame_count + 1)
             (writes @ [(frame_filename base saved_frame_count, frame)])
      else frame_loop n base rest (frame_count + 1) saved_frame_count writes)"

text \<open>
  What the run shows on the console: a line passed to \<open>print\<close>, or a progress bar of
  \<open>tqdm\<close>, given by its description, its \<open>total\<close> and the number of \<open>update(1)\<close>
  calls it received (how \<open>tqdm\<close> draws the bar is not modelled).
\<close>

datatype console_item = Printed string | ProgressBar string int nat

text \<open>
  The body of the \<open>for\<close> loop for one video file: open the capture, read the reported
  frame count, open the progress bar, run the loop while the capture is open (one
  \<open>pbar.update(1)\<close> per frame read, so \<open>frame_count\<close> of them), record the statistics.
  The result is the new statistics, the images written into the folder of this video
  (named after the video without its extension) and the progress bar. An exception
  ends the run, and the model then keeps the exception only.
\<close>

definition extract_video ::
  "int \<Rightarrow> string \<Rightarrow> 'f video \<Rightarrow> ProcessingStats
   \<Rightarrow> py_error + (ProcessingStats \<times> (string \<times> string \<times> 'f) list \<times> console_item)" where
  "extract_video n video_name v st =
     (let video_output_folder = fst (splitext video_name);
          cap = open_capture v;
          total = frame_count_prop cap;
          looped = (if isOpened cap
                    then frame_loop n (fst (splitext video_name)) (pending cap) 0 0 []
                    else Inr (0, 0, []))
      in case looped of
           Inl e \<Rightarrow> Inl e
         | Inr (frame_count, saved_frame_count, writes) \<Rightarrow>
             Inr (update_video_stats video_name total (int saved_frame_count) st,
                  map (\<lambda>(fname, frame). (video_output_folder, fname, frame)) writes,
                  ProgressBar (''Processing '' @ video_name) total frame_count))"

fun extract_videos ::
  "int \<Rightarrow> (string \<times> 'f video) list \<Rightarrow> ProcessingStats \<Rightarrow> (string \<times> string \<times> 'f) list
   \<Rightarrow> console_item list
   \<Rightarrow> py_error + (ProcessingStats \<times> (string \<times> string \<times> 'f) list \<times> console_item list)" where
  "extract_videos n [] st written shown = Inr (st, written, shown)"
| "extract_videos n ((video_name, v) # others) st written shown =
     (case extract_video n video_name v st of
        Inl e \<Rightarrow> Inl e
      | Inr (st', ws, bar) \<Rightarrow> extract_videos n others st' (written @ ws) (shown @ [bar]))"

definition video_extensions :: "string list" where
  "video_extensions = [''.mp4'', ''.avi'', ''.mov'', ''.mkv'', ''.dav'']"

text \<open>The list comprehension that selects the video files of the input folder.\<close>

fun video_files :: "(string \<times> 'f entry) list \<Rightarrow> (string \<times> 'f video) list" where
  "video_files [] = []"
| "video_files ((f, Directory) # es) = video_files es"
| "video_files ((f, RegularFile v) # es) =
     (if endswith_any (lower f) video_extensions then (f, v) # video_files es
      else video_files es)"

text \<open>
  \<open>print_summary\<close>: the strings passed to \<open>print\<close>, in order.
\<close>

definition newline :: char where
  "newline = CHR 0x0A"

definition print_summary :: "ProcessingStats \<Rightarrow> string list" where
  "print_summary st =
     [newline # ''=== Processing Summary ==='',
      ''Total videos found: '' @ str_int (total_videos st),
      ''Videos processed: '' @ str_int (processed_videos st),
      ''Total frames across all videos: '' @ str_int (total_frames st),
      ''Total frames extracted: '' @ str_int (extracted_frames st),
      newline # ''Per-video statistics:'']
     @ concat (map (\<lambda>(video, s).
          [newline # video @ '':'',
           ''  Total frames: '' @ str_int (frames s),
           ''  Extracted frames: '' @ str_int (extracted s)]) (video_stats st))
     @ [newline # ''======================='']"

text \<open>
  \<open>extract_frames\<close>: the input folder is its listing (name and kind of each entry, in
  the order of \<open>os.listdir\<close>), the global \<open>stats\<close> object is passed in and returned.
  The result is the statistics, the images written (folder of the video, file name,
  frame) and the console output (the progress bars of the videos, the summary and the
  final message); an exception aborts the run.
\<close>

definition extract_frames ::
  "(string \<times> 'f entry) list \<Rightarrow> string \<Rightarrow> int \<Rightarrow> ProcessingStats
   \<Rightarrow> py_error + (ProcessingStats \<times> (string \<times> string \<times> 'f) list \<times> console_item list)" where
  "extract_frames input_folder output_folder n st =
     (let vids = video_files input_folder;
          st1 = st\<lparr>total_videos := int (length vids)\<rparr>
      in case extract_videos n vids st1 [] [] of
           Inl e \<Rightarrow> Inl e
         | Inr (st2, written, shown) \<Rightarrow>
             Inr (st2, written,
                  shown @ map Printed (print_summary st2)
                  @ [Printed (''Frames have been extracted and saved to '' @ output_folder)]))"


subsection \<open>Facts about the loop\<close>

text \<open>
  \<open>selected n start fs\<close>: the frames of \<open>fs\<close> whose ordinal index, counted from
  \<open>start\<close>, is divisible by \<open>n\<close>, in order.
\<close>

definition selected :: "int \<Rightarrow> nat \<Rightarrow> 'f list \<Rightarrow> 'f list" where
  "selected n start fs = map snd (filter (\<lambda>(i, f). int i mod n = 0) (enumerate start fs))"

text \<open>The decimal value of a string of digits, and the test for such a string.\<close>

definition digit_val :: "char \<Rightarrow> nat option" where
  "digit_val c = map_of (zip ''0123456789'' [0, 1, 2, 3, 4, 5, 6, 7, 8, 9]) c"

definition digits_value :: "string \<Rightarrow> nat" where
  "digits_value s = foldl (\<lambda>acc c. 10 * acc + (case digit_val c of Some d \<Rightarrow> d | None \<Rightarrow> 0)) 0 s"

definition is_digit :: "char \<Rightarrow> bool" where
  "is_digit c \<longleftrightarrow> digit_val c \<noteq> None"

lemma replicate_numeral:
  "replicate (numeral k) x = x # replicate (pred_numeral k) x"
  by (simp add: numeral_eq_Suc)

lemma selected_Nil [simp]: "selected n start [] = []"
  by (simp add: selected_def)

lemma selected_Cons:
  "selected n start (f # fs) =
     (if int start mod n = 0 then f # selected n (Suc start) fs else selected n (Suc start) fs)"
  by (simp add: selected_def)

lemma frame_loop_gen:
  "n \<noteq> 0 \<Longrightarrow>
   frame_loop n base fs fc sc ws =
     Inr (fc + length fs, sc + length (selected n fc fs),
          ws @ map (\<lambda>(c, f). (frame_filename base c, f)) (enumerate sc (selected n fc fs)))"
  by (induction fs arbitrary: fc sc ws) (simp_all add: selected_Cons)

lemma ceil_div_zero:
  fixes n :: nat assumes "0 < n" "L mod n = 0"
  shows "(L + n - 1) div n = L div n"
proof -
  have "L = L div n * n + L mod n" by simp
  then have "L + n - 1 = (n - 1) + (L div n) * n" using assms by simp
  then have "(L + n - 1) div n = ((n - 1) + (L div n) * n) div n" by simp
  also have "\<dots> = (n - 1) div n + L div n" using assms by (simp only: div_mult_self1) 
  finally show ?thesis using assms by simp
qed

lemma ceil_div_nonzero:
  fixes n :: nat assumes "0 < n" "L mod n \<noteq> 0"
  shows "(L + n - 1) div n = Suc (L div n)"
proof -
  have "L = L div n * n + L mod n" by simp
  then have "L + n - 1 = (L mod n - 1) + Suc (L div n) * n" using assms by simp
  then have "(L + n - 1) div n = ((L mod n - 1) + Suc (L div n) * n) div n" by simp
  also have "\<dots> = (L mod n - 1) div n + Suc (L div n)" using assms by (simp only: div_mult_self1)
  also have "(L mod n - 1) div n = 0" using assms by (simp add: less_imp_diff_less)
  finally show ?thesis by simp
qed

lemma multiples_upto:
  fixes n :: nat
  assumes "0 < n"
  shows "filter (\<lambda>i. i mod n = 0) [0..<L] = map (\<lambda>k. k * n) [0..<(L + n - 1) div n]"
proof (induction L)
  case 0
  then show ?case using assms by simp
next
  case (Suc L)
  have eq: "Suc L + n - 1 = L + n" by simp
  show ?case
  proof (cases "L mod n = 0")
    case True
    have a: "(L + n - 1) div n = L div n" using assms True by (rule ceil_div_zero)
    have b: "(Suc L + n - 1) div n = Suc (L div n)" unfolding eq using assms by simp
    have c: "L div n * n = L" using True by (metis div_mult_mod_eq add.right_neutral)
    show ?thesis unfolding b using Suc [unfolded a] True by (simp add: c)
  next
    case False
    have a: "(L + n - 1) div n = Suc (L div n)" using assms False by (rule ceil_div_nonzero)
    have b: "(Suc L + n - 1) div n = Suc (L div n)" unfolding eq using assms by simp
    show ?thesis unfolding b using Suc [unfolded a] False by simp
  qed
qed

lemma ceil_as_div:
  fixes n :: nat assumes "0 < n"
  shows "nat \<lceil>real L / real n\<rceil> = (L + n - 1) div n"
proof -
  have fl: "\<lfloor>real L / real n\<rfloor> = int (L div n)"
    by (rule floor_divide_of_nat_eq)
  show ?thesis
  proof (cases "L mod n = 0")
    case True
    then have "n dvd L" by (simp add: mod_eq_0_iff_dvd)
    then have "real L / real n = real (L div n)" by (simp add: real_of_nat_div)
    then have "\<lceil>real L / real n\<rceil> = int (L div n)" by simp
    then show ?thesis using ceil_div_zero [OF assms True] by simp
  next
    case False
    have "real L / real n \<noteq> real (L div n)"
    proof
      assume "real L / real n = real (L div n)"
      then have "real L = real (L div n * n)" using assms by (simp add: field_simps)
      then have "L = L div n * n" by (simp only: of_nat_eq_iff)
      then have "L mod n = 0" by (metis mod_mult_self2_is_0)
      with False show False by simp
    qed
    then have "\<lceil>real L / real n\<rceil> = int (L div n) + 1"
      using fl by (simp add: ceiling_altdef)
    then show ?thesis using ceil_div_nonzero [OF assms False] by simp
  qed
qed

lemma inj_digit: "a < 10 \<Longrightarrow> b < 10 \<Longrightarrow> digit_char a = digit_char b \<Longrightarrow> a = b"
proof -
  assume a: "a < 10" and b: "b < 10" and e: "digit_char a = digit_char b"
  have d: "distinct ''0123456789''" by simp
  have l: "length ''0123456789'' = 10" by simp
  show "a = b" using e a b nth_eq_iff_index_eq [OF d, of a b] unfolding digit_char_def l by simp
qed

lemma str_nat_nonempty: "str_nat n \<noteq> []"
  by (subst str_nat.simps) simp

lemma str_nat_inj: "str_nat a = str_nat b \<Longrightarrow> a = b"
proof (induction a arbitrary: b rule: str_nat.induct)
  case (1 a)
  show ?case
  proof (cases "a < 10")
    case True
    then have sa: "str_nat a = [digit_char a]" by (subst str_nat.simps) simp
    show ?thesis
    proof (cases "b < 10")
      case bs: True
      then have "str_nat b = [digit_char b]" by (subst str_nat.simps) simp
      then show ?thesis using sa "1.prems" True bs inj_digit by simp
    next
      case False
      then have "str_nat b = str_nat (b div 10) @ [digit_char (b mod 10)]" by (subst str_nat.simps) simp
      then show ?thesis using sa "1.prems" str_nat_nonempty [of "b div 10"] by simp
    qed
  next
    case False
    then have sa: "str_nat a = str_nat (a div 10) @ [digit_char (a mod 10)]" by (subst str_nat.simps) simp
    show ?thesis
    proof (cases "b < 10")
      case True
      then have "str_nat b = [digit_char b]" by (subst str_nat.simps) simp
      then show ?thesis using sa "1.prems" str_nat_nonempty [of "a div 10"] by simp
    next
      case bl: False
      then have sb: "str_nat b = str_nat (b div 10) @ [digit_char (b mod 10)]" by (subst str_nat.simps) simp
      from sa sb "1.prems" have e1: "str_nat (a div 10) = str_nat (b div 10)"
        and e2: "digit_char (a mod 10) = digit_char (b mod 10)" by simp_all
      have "a div 10 = b div 10" using "1.IH" [OF False e1] .
      moreover have "a mod 10 = b mod 10" using e2 by (intro inj_digit) simp_all
      ultimately show ?thesis by (metis div_mult_mod_eq)
    qed
  qed
qed












lemma length_format_05d: "length (format_05d n) = max 5 (length (str_nat n))"
  by (simp add: format_05d_def)



text \<open>
  The frames that the decoder delivers for a file (none when it cannot be opened) and
  the frame count it reports.
\<close>

fun decoded :: "'f video \<Rightarrow> 'f list" where
  "decoded (Unopenable c) = []"
| "decoded (Openable c fs) = fs"

fun reported :: "'f video \<Rightarrow> int" where
  "reported (Unopenable c) = c"
| "reported (Openable c fs) = c"

text \<open>
  What one video contributes to a run that does not abort, written without the loop:
  \<open>video_record\<close> is the call of \<open>update_video_stats\<close> made for it (name, reported
  frame count, number of selected frames), \<open>video_writes\<close> the images written for it,
  \<open>video_bar\<close> its progress bar.
\<close>

definition video_record :: "int \<Rightarrow> string \<times> 'f video \<Rightarrow> string \<times> int \<times> int" where
  "video_record n = (\<lambda>(video_name, v).
     (video_name, reported v, int (length (selected n 0 (decoded v)))))"

definition video_writes :: "int \<Rightarrow> string \<times> 'f video \<Rightarrow> (string \<times> string \<times> 'f) list" where
  "video_writes n = (\<lambda>(video_name, v).
     map (\<lambda>(c, f). (fst (splitext video_name), frame_filename (fst (splitext video_name)) c, f))
       (enumerate 0 (selected n 0 (decoded v))))"

definition video_bar :: "string \<times> 'f video \<Rightarrow> console_item" where
  "video_bar = (\<lambda>(video_name, v).
     ProgressBar (''Processing '' @ video_name) (reported v) (length (decoded v)))"

text \<open>
  The specification's description of one video under the interval \<open>n\<close>: with \<open>L\<close>
  decoded frames, \<open>\<lceil>L / n\<rceil>\<close> images, the \<open>k\<close>-th being the frame of index \<open>k * n\<close>,
  and the record of that count.
\<close>

definition every_nth_images :: "nat \<Rightarrow> string \<times> 'f video \<Rightarrow> (string \<times> string \<times> 'f) list" where
  "every_nth_images n = (\<lambda>(video_name, v).
     map (\<lambda>k. (fst (splitext video_name), frame_filename (fst (splitext video_name)) k,
                decoded v ! (k * n)))
       [0..<nat \<lceil>real (length (decoded v)) / real n\<rceil>])"

definition every_nth_record :: "nat \<Rightarrow> string \<times> 'f video \<Rightarrow> string \<times> int \<times> int" where
  "every_nth_record n = (\<lambda>(video_name, v).
     (video_name, reported v, \<lceil>real (length (decoded v)) / real n\<rceil>))"

text \<open>The summary and the final message, as console items.\<close>

definition closing_output :: "ProcessingStats \<Rightarrow> string \<Rightarrow> console_item list" where
  "closing_output st output_folder =
     map Printed (print_summary st)
     @ [Printed (''Frames have been extracted and saved to '' @ output_folder)]"

text \<open>The images written by a run; none when it aborts.\<close>

definition written_images ::
  "py_error + (ProcessingStats \<times> (string \<times> string \<times> 'f) list \<times> console_item list)
   \<Rightarrow> (string \<times> string \<times> 'f) list" where
  "written_images r = (case r of Inl e \<Rightarrow> [] | Inr (st, written, shown) \<Rightarrow> written)"

text \<open>
  A file that cannot be opened, replaced by a video with the same reported frame count
  that opens and delivers no frame.
\<close>

fun as_empty :: "'f video \<Rightarrow> 'f video" where
  "as_empty (Unopenable c) = Openable c []"
| "as_empty (Openable c fs) = Openable c fs"


lemma enumerate_map_upt: "enumerate 0 (map g [0..<m]) = map (\<lambda>k. (k, g k)) [0..<m]"
  by (simp add: enumerate_eq_zip zip_map2 zip_same_conv_map)

lemma selected_from_zero:
  assumes "0 < n"
  shows "selected (int n) 0 fs = map (\<lambda>k. fs ! (k * n)) [0..<(length fs + n - 1) div n]"
proof -
  have e: "enumerate 0 fs = map (\<lambda>i. (i, fs ! i)) [0..<length fs]"
    using enumerate_map_upt [of "(!) fs" "length fs"] by (simp add: map_nth)
  have m: "(\<lambda>i. int i mod int n = 0) = (\<lambda>i. i mod n = 0)"
    by (rule ext) (metis of_nat_mod of_nat_eq_0_iff)
  have "selected (int n) 0 fs = map ((!) fs) (filter (\<lambda>i. i mod n = 0) [0..<length fs])"
    unfolding selected_def e by (simp add: filter_map comp_def m)
  then show ?thesis by (simp add: multiples_upto [OF assms] comp_def)
qed

lemma selected_every_nth:
  assumes "0 < n"
  shows "selected (int n) 0 fs = map (\<lambda>k. fs ! (k * n)) [0..<nat \<lceil>real (length fs) / real n\<rceil>]"
  unfolding ceil_as_div [OF assms] using assms by (rule selected_from_zero)


lemma extract_video_eq:
  assumes "n \<noteq> 0"
  shows "extract_video n video_name v st =
     Inr (update_video_stats video_name (fst (snd (video_record n (video_name, v))))
            (snd (snd (video_record n (video_name, v)))) st,
          video_writes n (video_name, v), video_bar (video_name, v))"
proof (cases v)
  case (Unopenable c)
  then show ?thesis
    by (simp add: extract_video_def video_record_def video_writes_def video_bar_def selected_def)
next
  case (Openable c fs)
  then show ?thesis
    by (simp add: extract_video_def video_record_def video_writes_def video_bar_def
        frame_loop_gen [OF assms] Let_def comp_def case_prod_unfold)
qed

lemma extract_videos_eq:
  assumes "n \<noteq> 0"
  shows "extract_videos n vids st written shown =
     Inr (record_all (map (video_record n) vids) st, written @ concat (map (video_writes n) vids),
          shown @ map video_bar vids)"
proof (induction vids arbitrary: st written shown)
  case Nil
  then show ?case by simp
next
  case (Cons p vids)
  obtain video_name v where p: "p = (video_name, v)" by (cases p) auto
  show ?case
    unfolding p by (simp add: extract_video_eq [OF assms] Cons.IH video_record_def)
qed

lemma extract_frames_eq:
  assumes "n \<noteq> 0"
  shows "extract_frames input_folder output_folder n st =
     Inr (record_all (map (video_record n) (video_files input_folder))
            (st\<lparr>total_videos := int (length (video_files input_folder))\<rparr>),
          concat (map (video_writes n) (video_files input_folder)),
          map video_bar (video_files input_folder)
          @ closing_output (record_all (map (video_record n) (video_files input_folder))
              (st\<lparr>total_videos := int (length (video_files input_folder))\<rparr>)) output_folder)"
  by (simp add: extract_frames_def extract_videos_eq [OF assms] Let_def closing_output_def)

lemma every_nth_images_eq:
  assumes "0 < n"
  shows "video_writes (int n) = every_nth_images n"
proof (rule ext)
  fix p :: "string \<times> 'a video"
  obtain video_name v where p: "p = (video_name, v)" by (cases p) auto
  show "video_writes (int n) p = every_nth_images n p"
    unfolding p video_writes_def every_nth_images_def prod.case
      selected_every_nth [OF assms] enumerate_map_upt
    by (simp add: comp_def)
qed

lemma every_nth_record_eq:
  assumes "0 < n"
  shows "video_record (int n) = every_nth_record n"
proof (rule ext)
  fix p :: "string \<times> 'a video"
  obtain video_name v where p: "p = (video_name, v)" by (cases p) auto
  have "0 \<le> real (length (decoded v)) / real n" by simp
  then have "- 1 < real (length (decoded v)) / real n" by linarith
  then have "0 \<le> \<lceil>real (length (decoded v)) / real n\<rceil>" by (simp only: zero_le_ceiling)
  then show "video_record (int n) p = every_nth_record n p"
    unfolding p video_record_def every_nth_record_def prod.case
      selected_every_nth [OF assms]
    by simp
qed

lemma frame_loop_every_nth:
  assumes "0 < n"
  shows "frame_loop (int n) base fs 0 0 [] =
           Inr (length fs, nat \<lceil>real (length fs) / real n\<rceil>,
                map (\<lambda>k. (frame_filename base k, fs ! (k * n)))
                  [0..<nat \<lceil>real (length fs) / real n\<rceil>])"
proof -
  let ?m = "nat \<lceil>real (length fs) / real n\<rceil>"
  have n0: "int n \<noteq> 0" using assms by simp
  have sel: "selected (int n) 0 fs = map (\<lambda>k. fs ! (k * n)) [0..<?m]"
    using assms by (rule selected_every_nth)
  show ?thesis
    unfolding frame_loop_gen [OF n0] sel by (simp add: enumerate_map_upt comp_def)
qed

lemma every_nth_indices:
  assumes "0 < n"
  shows "map (\<lambda>k. fs ! (k * n)) [0..<nat \<lceil>real (length fs) / real n\<rceil>]
           = map ((!) fs) (filter (\<lambda>i. i mod n = 0) [0..<length fs])"
  unfolding ceil_as_div [OF assms] by (simp add: multiples_upto [OF assms] comp_def)

lemma video_files_names: "set (map fst (video_files input_folder)) \<subseteq> set (map fst input_folder)"
proof (induction input_folder rule: video_files.induct)
  case 1
  then show ?case by simp
next
  case (2 f es)
  then show ?case by auto
next
  case (3 f v es)
  then show ?case by auto
qed

text \<open>
  C1. For every sampling interval \<open>n \<ge> 1\<close>, every input folder and every state of the
  statistics, \<open>extract_frames\<close> ends normally; for each video file of the folder, in
  listing order, with \<open>L\<close> the number of frames decoded from it, it writes exactly
  \<open>\<lceil>L / n\<rceil>\<close> images into the folder of that video, the \<open>k\<close>-th being the frame of
  ordinal index \<open>k * n\<close>, and records \<open>\<lceil>L / n\<rceil>\<close> as the number of extracted frames;
  it writes nothing else. These are the frames whose zero-based index is a multiple of
  \<open>n\<close>, in order. The loop over one video ends with \<open>frame_count = L\<close> and
  \<open>saved_frame_count = \<lceil>L / n\<rceil>\<close>.
\<close>

theorem extract_every_nth_frame:
  assumes "0 < n"
  shows "extract_frames input_folder output_folder (int n) st =
           Inr (record_all (map (every_nth_record n) (video_files input_folder))
                  (st\<lparr>total_videos := int (length (video_files input_folder))\<rparr>),
                concat (map (every_nth_images n) (video_files input_folder)),
                map video_bar (video_files input_folder)
                @ closing_output (record_all (map (every_nth_record n) (video_files input_folder))
                    (st\<lparr>total_videos := int (length (video_files input_folder))\<rparr>)) output_folder)
       \<and> length (every_nth_images n (video_name, v)) = nat \<lceil>real (length (decoded v)) / real n\<rceil>
       \<and> map (snd \<circ> snd) (every_nth_images n (video_name, v))
           = map ((!) (decoded v)) (filter (\<lambda>i. i mod n = 0) [0..<length (decoded v)])
       \<and> frame_loop (int n) base fs 0 0 [] =
           Inr (length fs, nat \<lceil>real (length fs) / real n\<rceil>,
                map (\<lambda>k. (frame_filename base k, fs ! (k * n)))
                  [0..<nat \<lceil>real (length fs) / real n\<rceil>])
       \<and> map (\<lambda>k. fs ! (k * n)) [0..<nat \<lceil>real (length fs) / real n\<rceil>]
           = map ((!) fs) (filter (\<lambda>i. i mod n = 0) [0..<length fs])
       \<and> extract_video (int n) video_name (Openable c fs) st =
           Inr (update_video_stats video_name c (int (nat \<lceil>real (length fs) / real n\<rceil>)) st,
                map (\<lambda>k. (fst (splitext video_name),
                           frame_filename (fst (splitext video_name)) k, fs ! (k * n)))
                  [0..<nat \<lceil>real (length fs) / real n\<rceil>],
                ProgressBar (''Processing '' @ video_name) c (length fs))"
proof -
  have n0: "int n \<noteq> 0" using assms by simp
  have run: "extract_frames input_folder output_folder (int n) st =
           Inr (record_all (map (every_nth_record n) (video_files input_folder))
                  (st\<lparr>total_videos := int (length (video_files input_folder))\<rparr>),
                concat (map (every_nth_images n) (video_files input_folder)),
                map video_bar (video_files input_folder)
                @ closing_output (record_all (map (every_nth_record n) (video_files input_folder))
                    (st\<lparr>total_videos := int (length (video_files input_folder))\<rparr>)) output_folder)"
    unfolding extract_frames_eq [OF n0] every_nth_images_eq [OF assms] every_nth_record_eq [OF assms] ..
  have len: "length (every_nth_images n (video_name, v)) = nat \<lceil>real (length (decoded v)) / real n\<rceil>"
    by (simp add: every_nth_images_def)
  have idx: "map (snd \<circ> snd) (every_nth_images n (video_name, v))
           = map ((!) (decoded v)) (filter (\<lambda>i. i mod n = 0) [0..<length (decoded v)])"
    using every_nth_indices [OF assms, of "decoded v"] by (simp add: every_nth_images_def comp_def)
  have vid: "extract_video (int n) video_name (Openable c fs) st =
           Inr (update_video_stats video_name c (int (nat \<lceil>real (length fs) / real n\<rceil>)) st,
                map (\<lambda>k. (fst (splitext video_name),
                           frame_filename (fst (splitext video_name)) k, fs ! (k * n)))
                  [0..<nat \<lceil>real (length fs) / real n\<rceil>],
                ProgressBar (''Processing '' @ video_name) c (length fs))"
    unfolding extract_video_def by (simp add: frame_loop_every_nth [OF assms] comp_def Let_def)
  show ?thesis
    using run len idx frame_loop_every_nth [OF assms, of base fs] every_nth_indices [OF assms, of fs] vid
    by blast
qed

text \<open>Unfolding rules that evaluate names and numbers on concrete inputs.\<close>

lemmas ev = format_05d_def str_nat.simps digit_char_def replicate_numeral frame_filename_def

lemmas ev_files = video_extensions_def endswith_any_def endswith_def lower_def lower_char_def

theorem extract_every_nth_frame_witness:
  "0 < (2::nat)
   \<and> written_images
       (extract_frames [(''clip.mp4'', RegularFile (Openable 5 [10, 11, 12, 13, 14 :: nat])),
                        (''readme.txt'', RegularFile (Unopenable 0))] ''out'' 2 init_stats)
     = [(''clip'', ''clip_frame_00000.jpg'', 10), (''clip'', ''clip_frame_00001.jpg'', 12),
        (''clip'', ''clip_frame_00002.jpg'', 14)]
   \<and> frame_loop 2 ''clip'' [10, 11, 12, 13, 14 :: nat] 0 0 [] =
       Inr (5, 3, [(''clip_frame_00000.jpg'', 10), (''clip_frame_00001.jpg'', 12),
                   (''clip_frame_00002.jpg'', 14)])
   \<and> nat \<lceil>real (5::nat) / real (2::nat)\<rceil> = 3"
proof -
  have c: "nat \<lceil>real (length [10, 11, 12, 13, 14 :: nat]) / real (2::nat)\<rceil> = 3"
    by (simp add: ceiling_divide_eq_div)
  have u: "[0..<3] = [0, 1, 2]" by (simp add: upt_rec)
  have v: "video_files [(''clip.mp4'', RegularFile (Openable 5 [10, 11, 12, 13, 14 :: nat])),
                        (''readme.txt'', RegularFile (Unopenable 0))]
       = [(''clip.mp4'', Openable 5 [10, 11, 12, 13, 14 :: nat])]"
    by (simp add: ev_files)
  have w: "every_nth_images 2 (''clip.mp4'', Openable 5 [10, 11, 12, 13, 14 :: nat])
       = [(''clip'', ''clip_frame_00000.jpg'', 10), (''clip'', ''clip_frame_00001.jpg'', 12),
          (''clip'', ''clip_frame_00002.jpg'', 14)]"
    unfolding every_nth_images_def prod.case decoded.simps c u list.map
    by (simp add: splitext_def) (simp add: ev)
  show ?thesis
    using extract_every_nth_frame [where n = 2 and base = "''clip''"
      and fs = "[10, 11, 12, 13, 14 :: nat]" and output_folder = "''out''" and st = init_stats
      and input_folder = "[(''clip.mp4'', RegularFile (Openable 5 [10, 11, 12, 13, 14 :: nat])),
                        (''readme.txt'', RegularFile (Unopenable 0))]"
      and video_name = "''clip.mp4''" and v = "Openable 5 [10, 11, 12, 13, 14 :: nat]" and c = 5]
    unfolding v c u list.map decoded.simps concat.simps append_Nil2 w
    by (simp add: written_images_def) (simp add: ev)
qed

text \<open>The scenario of the specification: 101 frames, interval 10, 11 saved frames.\<close>

lemma scenario_101_frames:
  assumes "length fs = 101"
  shows "\<exists>ws. frame_loop 10 base fs 0 0 [] = Inr (101, 11, ws)
           \<and> map snd ws = map ((!) fs) [0, 10, 20, 30, 40, 50, 60, 70, 80, 90, 100]"
proof -
  have c: "nat \<lceil>real (length fs) / real (10::nat)\<rceil> = 11"
    unfolding assms by (simp add: ceiling_divide_eq_div)
  have u: "[0..<11] = [0, 1, 2, 3, 4, 5, 6, 7, 8, 9, 10]" by (simp add: upt_rec)
  show ?thesis
    using frame_loop_every_nth [of 10 base fs] unfolding c u by (simp add: assms)
qed


subsection \<open>The names of the saved frames\<close>

lemma selected_one: "selected 1 start fs = fs"
  by (induction fs arbitrary: start) (simp_all add: selected_Cons)




text \<open>
  C5, as stated, fails: the counter field has five digits only for the first 100000
  saved frames of a video. A video of 100001 frames, interval 1: the frame of index
  100000 is saved as \<open>v_frame_100000.jpg\<close>, with a counter of six digits.
\<close>

theorem six_digit_counter:
  "written_images
     (extract_frames [(''v.mp4'', RegularFile (Openable 100001 (replicate 100001 (0::nat))))]
        ''out'' 1 init_stats) ! 100000
   = (''v'', ''v_frame_100000.jpg'', 0)"
proof -
  have v: "video_files [(''v.mp4'', RegularFile (Openable 100001 (replicate 100001 (0::nat))))]
       = [(''v.mp4'', Openable 100001 (replicate 100001 0))]"
    by (simp add: ev_files)
  have one: "(1::int) \<noteq> 0" by simp
  have e: "enumerate 0 (replicate 100001 (0::nat)) ! 100000 = (100000, 0)"
    by (simp add: nth_enumerate_eq)
  have nm: "frame_filename ''v'' 100000 = ''v_frame_100000.jpg''"
    by (simp add: ev)
  have sp: "fst (splitext ''v.mp4'') = ''v''"
    by (simp add: splitext_def)
  show ?thesis
    unfolding extract_frames_eq [OF one] v written_images_def
    by (simp add: video_writes_def selected_one sp e nm)
qed




subsection \<open>Videos that cannot be opened\<close>



lemma decoded_as_empty: "decoded (as_empty v) = decoded v"
  by (cases v) simp_all

lemma reported_as_empty: "reported (as_empty v) = reported v"
  by (cases v) simp_all









section \<open>Class-ID counting (\<open>count_id_in_lbls.py\<close>, \<open>count_class_ids\<close>)\<close>

text \<open>
  \<open>str.split()\<close> without arguments splits at runs of whitespace and drops empty
  strings. On ASCII the whitespace characters of Python are the codes 9 to 13, 28 to 31
  and 32.
\<close>

definition is_space :: "char \<Rightarrow> bool" where
  "is_space c \<longleftrightarrow> c \<in> set [CHR 0x09, CHR 0x0A, CHR 0x0B, CHR 0x0C, CHR 0x0D,
                               CHR 0x1C, CHR 0x1D, CHR 0x1E, CHR 0x1F, CHR '' '']"

fun split_from :: "string \<Rightarrow> string \<Rightarrow> string list" where
  "split_from cur [] = (if cur = [] then [] else [cur])"
| "split_from cur (c # cs) =
     (if is_space c then (if cur = [] then split_from [] cs else cur # split_from [] cs)
      else split_from (cur @ [c]) cs)"

definition split :: "string \<Rightarrow> string list" where
  "split line = split_from [] line"

text \<open>
  A \<open>Counter\<close> is a dictionary: an association list in insertion order, a missing key
  counting 0. \<open>class_counts[class_id] += 1\<close> adds one to an existing entry in place
  and appends a new entry otherwise.
\<close>

type_synonym counter = "(string \<times> nat) list"

definition count_of :: "counter \<Rightarrow> string \<Rightarrow> nat" where
  "count_of d k = (case map_of d k of None \<Rightarrow> 0 | Some v \<Rightarrow> v)"

definition incr :: "string \<Rightarrow> counter \<Rightarrow> counter" where
  "incr k d =
     (case map_of d k of
        None \<Rightarrow> d @ [(k, 0 + 1)]
      | Some v \<Rightarrow> map (\<lambda>(k', v'). if k' = k then (k', v' + 1) else (k', v')) d)"

text \<open>The body of \<open>for line in file\<close>, and the loop over the lines of one file.\<close>

definition count_line :: "string \<Rightarrow> counter \<Rightarrow> counter" where
  "count_line line class_counts =
     (case split line of
        [] \<Rightarrow> class_counts
      | class_id # _ \<Rightarrow> incr class_id class_counts)"

fun count_lines :: "string list \<Rightarrow> counter \<Rightarrow> counter" where
  "count_lines [] class_counts = class_counts"
| "count_lines (line # rest) class_counts = count_lines rest (count_line line class_counts)"

text \<open>
  An entry of the folder, as reading it goes: the lines that the file delivers, and the
  message of the exception that ends the reading, if one is raised (a directory, a file
  that cannot be opened or decoded). The \<open>try\<close> block keeps what was counted before the
  exception and prints \<open>Error reading <name>: <message>\<close>.
\<close>

type_synonym txt_file = "string list \<times> string option"

fun count_files :: "(string \<times> txt_file) list \<Rightarrow> counter \<Rightarrow> string list \<Rightarrow> counter \<times> string list" where
  "count_files [] class_counts printed = (class_counts, printed)"
| "count_files ((file_name, lines, err) # rest) class_counts printed =
     count_files rest (count_lines lines class_counts)
       (case err of
          None \<Rightarrow> printed
        | Some e \<Rightarrow> printed @ [''Error reading '' @ file_name @ '': '' @ e])"

text \<open>
  \<open>int(s)\<close> on a token (no surrounding whitespace): an optional sign, then decimal
  digits, where single underscores may stand between digits. Anything else raises
  \<open>ValueError\<close>.
\<close>

fun underscores_ok :: "string \<Rightarrow> bool" where
  "underscores_ok [] = False"
| "underscores_ok [c] = is_digit c"
| "underscores_ok (c # d # cs) =
     (if is_digit c then underscores_ok (d # cs)
      else c = CHR ''_'' \<and> is_digit d \<and> underscores_ok (d # cs))"

definition nat_of_str :: "string \<Rightarrow> nat option" where
  "nat_of_str s =
     (case s of
        [] \<Rightarrow> None
      | c # _ \<Rightarrow> if is_digit c \<and> underscores_ok s
                 then Some (digits_value (filter (\<lambda>c. c \<noteq> CHR ''_'') s)) else None)"

definition int_of_str :: "string \<Rightarrow> int option" where
  "int_of_str s =
     (case s of
        [] \<Rightarrow> None
      | c # r \<Rightarrow>
          if c = CHR ''-'' then map_option (\<lambda>n. - int n) (nat_of_str r)
          else if c = CHR ''+'' then map_option int (nat_of_str r)
          else map_option int (nat_of_str s))"

text \<open>
  \<open>sorted(items, key=lambda x: int(x[0]))\<close>: the keys of all items are computed first,
  the first token that is no integer raises \<open>ValueError\<close>; then the items are sorted by
  key, items of equal key keeping their order (the sort is stable, as \<open>sort_key\<close> is).
\<close>

definition sorted_by_int :: "counter \<Rightarrow> py_error + counter" where
  "sorted_by_int items =
     (if list_all (\<lambda>(k, v). int_of_str k \<noteq> None) items
      then Inr (map snd (sort_key fst (map (\<lambda>(k, v). (the (int_of_str k), (k, v))) items)))
      else Inl ValueError)"

definition table_row :: "string \<times> nat \<Rightarrow> string" where
  "table_row = (\<lambda>(class_id, count). ''Class ID '' @ class_id @ '': '' @ str_nat count @ '' occurrences'')"

text \<open>
  \<open>count_class_ids\<close>: the folder is its listing, each entry with what reading it
  delivers. The result is the console output and the exception that ends the run, if
  any.
\<close>

definition count_class_ids :: "(string \<times> txt_file) list \<Rightarrow> string list \<times> py_error option" where
  "count_class_ids folder =
     (let txt_files = filter (\<lambda>(f, _). endswith f ''.txt'') folder
      in if txt_files = [] then ([''No .txt files found in the specified folder.''], None)
         else
           (case count_files txt_files [] [] of
              (class_counts, printed) \<Rightarrow>
                (case sorted_by_int class_counts of
                   Inl e \<Rightarrow> (printed @ [newline # ''Class ID Counts:''], Some e)
                 | Inr table \<Rightarrow>
                     (printed @ [newline # ''Class ID Counts:''] @ map table_row table, None))))"

text \<open>
  Specification side: the first whitespace-delimited token of a line, and the lines
  that the \<open>.txt\<close> files of a folder deliver, in order.
\<close>

definition first_token :: "string \<Rightarrow> string option" where
  "first_token line = (case split line of [] \<Rightarrow> None | t # _ \<Rightarrow> Some t)"

definition lines_read :: "(string \<times> txt_file) list \<Rightarrow> string list" where
  "lines_read folder = concat (map (\<lambda>(f, lines, err). lines) (filter (\<lambda>(f, _). endswith f ''.txt'') folder))"

definition occurrences :: "string \<Rightarrow> (string \<times> txt_file) list \<Rightarrow> nat" where
  "occurrences c folder = length (filter (\<lambda>line. first_token line = Some c) (lines_read folder))"

definition class_counts_of :: "(string \<times> txt_file) list \<Rightarrow> counter" where
  "class_counts_of folder = fst (count_files (filter (\<lambda>(f, _). endswith f ''.txt'') folder) [] [])"

subsection \<open>Facts about the counter and the table\<close>





















text \<open>Unfolding rules that evaluate the counting on concrete folders.\<close>

lemmas ev_count = count_class_ids_def class_counts_of_def occurrences_def lines_read_def
  first_token_def split_def is_space_def count_line_def incr_def count_of_def endswith_def
  sorted_by_int_def int_of_str_def nat_of_str_def is_digit_def digit_val_def digits_value_def
  table_row_def newline_def Let_def


text \<open>
  The other two ways the function ends: no \<open>.txt\<close> file (the extension is compared
  case-sensitively), and a first token that is no integer literal, where \<open>int\<close> raises
  \<open>ValueError\<close> after the header is printed and no row is.
\<close>

lemma count_class_ids_no_txt:
  "count_class_ids [(''labels.TXT'', ([''3 0.1 0.2 0.3 0.4''], None))]
     = ([''No .txt files found in the specified folder.''], None)"
  by (simp add: ev_count)

lemma count_class_ids_non_integer:
  "count_class_ids [(''a.txt'', ([''3 0.1 0.2 0.3 0.4'', ''person 0.5 0.5 0.1 0.1''], None))]
     = ([CHR 0x0A # ''Class ID Counts:''], Some ValueError)"
  by (simp add: ev_count)


section \<open>Folder combination (\<open>merge_folder.py\<close>, \<open>combine_folders\<close>)\<close>

text \<open>
  The file system, as far as \<open>combine_folders\<close> sees it after \<open>os.makedirs\<close> has
  made sure that the output folder exists. A directory is its listing, in the order of
  \<open>os.listdir\<close>: names with what they name, a file with its content (its bytes) or
  another directory. The directories are kept in a store, indexed by numbers; the
  entries of the root folder are files or child directories, each child given by its
  index in the store, and the output folder is an index as well. So the output folder
  may or may not be one of the children of the root folder.
\<close>

datatype node = File string | SubDir

type_synonym dir = "(string \<times> node) list"

datatype root_entry = RootFile | ChildDir nat

datatype copy_error = IsADirectoryError | FileNotFoundError

text \<open>
  The candidate name built in the body of the \<open>while\<close> loop,
  \<open>f"{name}_{counter}{ext}"\<close> with \<open>name, ext = os.path.splitext(img)\<close>.
\<close>

definition candidate :: "string \<Rightarrow> nat \<Rightarrow> string" where
  "candidate img counter =
     fst (splitext img) @ ''_'' @ str_nat counter @ snd (splitext img)"

lemma candidate_inj: "candidate img a = candidate img b \<Longrightarrow> a = b"
  by (simp add: candidate_def str_nat_inj)

lemma finite_candidates: "finite {k. candidate img k \<in> set names}"
proof -
  have "inj (candidate img)"
    by (rule injI) (rule candidate_inj)
  then have "finite (candidate img -` set names)"
    by (rule finite_vimageI [rotated]) simp
  then show ?thesis by (simp add: vimage_def)
qed

text \<open>
  The \<open>while os.path.exists(dest_path)\<close> loop: \<open>names\<close> are the names present in the
  output folder. The loop ends because the candidates are pairwise different and the
  folder holds finitely many names.
\<close>

function dest_loop :: "string list \<Rightarrow> string \<Rightarrow> string \<Rightarrow> nat \<Rightarrow> string" where
  "dest_loop names img dest_path counter =
     (if dest_path \<in> set names
      then dest_loop names img (candidate img counter) (counter + 1)
      else dest_path)"
  by pat_completeness auto
termination
proof (relation "measure (\<lambda>(names, img, dest_path, counter).
         card {k. counter \<le> k \<and> candidate img k \<in> set names}
         + (if dest_path \<in> set names then 1 else 0))")
  show "wf (measure (\<lambda>(names, img, dest_path, counter).
         card {k. counter \<le> k \<and> candidate img k \<in> set names}
         + (if dest_path \<in> set names then 1 else 0)))"
    by simp
next
  fix names :: "string list" and img dest_path :: string and counter :: nat
  assume "dest_path \<in> set names"
  let ?A = "{k. counter \<le> k \<and> candidate img k \<in> set names}"
  let ?B = "{k. counter + 1 \<le> k \<and> candidate img k \<in> set names}"
  have fin: "finite ?A"
    by (rule finite_subset [OF _ finite_candidates [of img names]]) auto
  have "card ?B + (if candidate img counter \<in> set names then 1 else 0) = card ?A"
  proof (cases "candidate img counter \<in> set names")
    case True
    then have "?A = insert counter ?B" by (auto simp: le_Suc_eq)
    moreover have "counter \<notin> ?B" by simp
    moreover have "finite ?B" by (rule finite_subset [OF _ fin]) auto
    ultimately show ?thesis using True by simp
  next
    case False
    then have "?A = ?B" by (auto simp: le_Suc_eq) (metis le_antisym not_less_eq_eq)
    then show ?thesis using False by simp
  qed
  then show "((names, img, candidate img counter, counter + 1), (names, img, dest_path, counter))
      \<in> measure (\<lambda>(names, img, dest_path, counter).
         card {k. counter \<le> k \<and> candidate img k \<in> set names}
         + (if dest_path \<in> set names then 1 else 0))"
    using \<open>dest_path \<in> set names\<close> by simp
qed

declare dest_loop.simps [simp del]

text \<open>
  One image of one sub-folder: the destination starts as the name of the image, the
  loop makes it a name that the output folder does not have, and \<open>shutil.copy\<close>
  writes the content of the source under that name. The source is read from the store
  at the time of the copy; a source that is a directory makes \<open>shutil.copy\<close> raise.
\<close>

definition copy_image :: "nat \<Rightarrow> nat \<Rightarrow> string \<Rightarrow> (nat \<Rightarrow> dir) \<Rightarrow> copy_error + (nat \<Rightarrow> dir)" where
  "copy_image subfolder output_folder img dirs =
     (let dest_path = dest_loop (map fst (dirs output_folder)) img img 1
      in case map_of (dirs subfolder) img of
           None \<Rightarrow> Inl FileNotFoundError
         | Some SubDir \<Rightarrow> Inl IsADirectoryError
         | Some (File content) \<Rightarrow>
             Inr (dirs(output_folder := dirs output_folder @ [(dest_path, File content)])))"

fun copy_images :: "nat \<Rightarrow> nat \<Rightarrow> string list \<Rightarrow> (nat \<Rightarrow> dir) \<Rightarrow> copy_error + (nat \<Rightarrow> dir)" where
  "copy_images subfolder output_folder [] dirs = Inr dirs"
| "copy_images subfolder output_folder (img # images) dirs =
     (case copy_image subfolder output_folder img dirs of
        Inl e \<Rightarrow> Inl e
      | Inr dirs' \<Rightarrow> copy_images subfolder output_folder images dirs')"

text \<open>The images of a sub-folder: the names of its listing that end in \<open>.jpg\<close>, in any case.\<close>

definition images_of :: "dir \<Rightarrow> string list" where
  "images_of d = filter (\<lambda>file. endswith (lower file) ''.jpg'') (map fst d)"

fun copy_subfolders :: "nat list \<Rightarrow> nat \<Rightarrow> (nat \<Rightarrow> dir) \<Rightarrow> copy_error + (nat \<Rightarrow> dir)" where
  "copy_subfolders [] output_folder dirs = Inr dirs"
| "copy_subfolders (subfolder # subfolders) output_folder dirs =
     (case copy_images subfolder output_folder (images_of (dirs subfolder)) dirs of
        Inl e \<Rightarrow> Inl e
      | Inr dirs' \<Rightarrow> copy_subfolders subfolders output_folder dirs')"

fun subfolders_of :: "(string \<times> root_entry) list \<Rightarrow> nat list" where
  "subfolders_of [] = []"
| "subfolders_of ((folder, RootFile) # es) = subfolders_of es"
| "subfolders_of ((folder, ChildDir i) # es) = i # subfolders_of es"

definition combine_folders ::
  "(string \<times> root_entry) list \<Rightarrow> nat \<Rightarrow> (nat \<Rightarrow> dir) \<Rightarrow> copy_error + (nat \<Rightarrow> dir)" where
  "combine_folders root_folder output_folder dirs =
     copy_subfolders (subfolders_of root_folder) output_folder dirs"





definition no_jpg_directory :: "dir \<Rightarrow> bool" where
  "no_jpg_directory d \<longleftrightarrow> list_all (\<lambda>(file, nd). endswith (lower file) ''.jpg'' \<longrightarrow> nd \<noteq> SubDir) d"















text \<open>Unfolding rules that evaluate a run on concrete folders.\<close>

lemmas ev_copy = combine_folders_def images_of_def endswith_def lower_def lower_char_def
  copy_image_def dest_loop.simps candidate_def splitext_def str_nat.simps digit_char_def




text \<open>
  The scenario of the specification: two sub-folders that each hold \<open>a.jpg\<close>, an empty
  output folder. The output folder gets \<open>a.jpg\<close> and \<open>a_1.jpg\<close>, each with the content
  of its source.
\<close>

lemma scenario_two_a_jpg:
  "combine_folders [(''s1'', ChildDir 1), (''s2'', ChildDir 2)] 0
      ((\<lambda>_. [])(1 := [(''a.jpg'', File c1)], 2 := [(''a.jpg'', File c2)]))
   = Inr (((\<lambda>_. [])(1 := [(''a.jpg'', File c1)], 2 := [(''a.jpg'', File c2)]))
          (0 := [(''a.jpg'', File c1), (''a_1.jpg'', File c2)]))"
  by (simp add: ev_copy)


section \<open>Binary64 floating point, as far as the programs use it\<close>

text \<open>
  A Python \<open>float\<close> is an IEEE 754 binary64 number: a finite value \<open>m * 2 ^ e\<close> with
  \<open>|m| < 2 ^ 53\<close> and \<open>- 1074 \<le> e \<le> 971\<close>, an infinity, or not a number. The finite
  values are kept as rational numbers (the sign of zero plays no part in what follows).
  An arithmetic operation returns the exact result rounded to the nearest binary64
  number, ties to the even significand; a result of magnitude \<open>2 ^ 1024\<close> or more after
  rounding is an infinity.
\<close>

datatype pyfloat = Finite rat | PosInf | NegInf | NaN

definition pow2 :: "int \<Rightarrow> rat" where
  "pow2 e = (if 0 \<le> e then 2 ^ nat e else 1 / 2 ^ nat (- e))"

text \<open>For \<open>x > 0\<close>, the \<open>p\<close> with \<open>2 ^ p \<le> x < 2 ^ (p + 1)\<close>.\<close>

definition floor_log2 :: "rat \<Rightarrow> int" where
  "floor_log2 x = (if 1 \<le> x then bitlen \<lfloor>x\<rfloor> - 1 else - bitlen (\<lceil>1 / x\<rceil> - 1))"

definition round_half_even :: "rat \<Rightarrow> int" where
  "round_half_even y =
     (let f = \<lfloor>y\<rfloor>; r = y - of_int f
      in if r < 1 / 2 then f else if 1 / 2 < r then f + 1 else if even f then f else f + 1)"

text \<open>
  The spacing of the binary64 numbers around \<open>x\<close> is \<open>2 ^ grid_exp x\<close>: 53 significant
  bits, and never finer than \<open>2 ^ - 1074\<close> (the subnormal numbers).
\<close>

definition grid_exp :: "rat \<Rightarrow> int" where
  "grid_exp x = max (floor_log2 \<bar>x\<bar> - 52) (- 1074)"

definition round_double :: "rat \<Rightarrow> pyfloat" where
  "round_double x =
     (if x = 0 then Finite 0
      else let e = grid_exp x; m = round_half_even (x / pow2 e)
           in if 2 ^ 1024 \<le> \<bar>of_int m\<bar> * pow2 e
              then (if 0 < x then PosInf else NegInf)
              else Finite (of_int m * pow2 e))"

text \<open>
  \<open>float(n)\<close> for an integer, also implicit in \<open>n * x\<close> and \<open>a / b\<close>: the nearest
  binary64 number, \<open>OverflowError\<close> when there is none.
\<close>

definition float_of_int :: "int \<Rightarrow> py_error + pyfloat" where
  "float_of_int n =
     (case round_double (of_int n) of
        Finite v \<Rightarrow> Inr (Finite v)
      | _ \<Rightarrow> Inl OverflowError)"

text \<open>The product of two floats.\<close>

fun float_mul :: "pyfloat \<Rightarrow> pyfloat \<Rightarrow> pyfloat" where
  "float_mul (Finite x) (Finite y) = round_double (x * y)"
| "float_mul NaN _ = NaN"
| "float_mul _ NaN = NaN"
| "float_mul (Finite x) PosInf = (if x = 0 then NaN else if 0 < x then PosInf else NegInf)"
| "float_mul (Finite x) NegInf = (if x = 0 then NaN else if 0 < x then NegInf else PosInf)"
| "float_mul PosInf (Finite y) = (if y = 0 then NaN else if 0 < y then PosInf else NegInf)"
| "float_mul NegInf (Finite y) = (if y = 0 then NaN else if 0 < y then NegInf else PosInf)"
| "float_mul PosInf PosInf = PosInf"
| "float_mul PosInf NegInf = NegInf"
| "float_mul NegInf PosInf = NegInf"
| "float_mul NegInf NegInf = PosInf"

text \<open>\<open>n * x\<close> for an integer \<open>n\<close> and a float \<open>x\<close>: the integer is converted first.\<close>

definition int_times_float :: "int \<Rightarrow> pyfloat \<Rightarrow> py_error + pyfloat" where
  "int_times_float n x =
     (case float_of_int n of
        Inl e \<Rightarrow> Inl e
      | Inr f \<Rightarrow> Inr (float_mul f x))"

text \<open>\<open>int(x)\<close> for a float: truncation towards zero.\<close>

fun int_of_float :: "pyfloat \<Rightarrow> py_error + int" where
  "int_of_float (Finite x) = Inr (if 0 \<le> x then \<lfloor>x\<rfloor> else \<lceil>x\<rceil>)"
| "int_of_float PosInf = Inl OverflowError"
| "int_of_float NegInf = Inl OverflowError"
| "int_of_float NaN = Inl ValueError"

text \<open>\<open>math.ceil(x)\<close> for a float.\<close>

fun math_ceil :: "pyfloat \<Rightarrow> py_error + int" where
  "math_ceil (Finite x) = Inr \<lceil>x\<rceil>"
| "math_ceil PosInf = Inl OverflowError"
| "math_ceil NegInf = Inl OverflowError"
| "math_ceil NaN = Inl ValueError"

text \<open>
  \<open>a / b\<close> for integers: the exact quotient, rounded once; \<open>ZeroDivisionError\<close> for
  \<open>b = 0\<close>, \<open>OverflowError\<close> when the quotient is too large for a float.
\<close>

definition true_div :: "int \<Rightarrow> int \<Rightarrow> py_error + pyfloat" where
  "true_div a b =
     (if b = 0 then Inl ZeroDivisionError
      else case round_double (of_int a / of_int b) of
             Finite v \<Rightarrow> Inr (Finite v)
           | _ \<Rightarrow> Inl OverflowError)"


subsection \<open>Facts about rounding\<close>

lemma round_half_even_ge: "\<lfloor>y\<rfloor> \<le> round_half_even y"
  by (simp add: round_half_even_def Let_def)

lemma round_half_even_le: "round_half_even y \<le> \<lceil>y\<rceil>"
proof -
  have "\<lfloor>y\<rfloor> + 1 \<le> \<lceil>y\<rceil>" if "y \<noteq> of_int \<lfloor>y\<rfloor>"
    using that by (simp add: ceiling_altdef)
  moreover have "y \<noteq> of_int \<lfloor>y\<rfloor>" if "1 / 2 \<le> y - of_int \<lfloor>y\<rfloor>"
    using that by auto
  ultimately show ?thesis
    using floor_le_ceiling [of y] by (auto simp: round_half_even_def Let_def not_less)
qed

lemma round_half_even_int [simp]: "round_half_even (of_int n) = n"
  by (simp add: round_half_even_def)

lemma round_half_even_close: "\<bar>of_int (round_half_even y) - y\<bar> \<le> 1 / 2"
proof -
  have "of_int \<lfloor>y\<rfloor> \<le> y" "y < of_int \<lfloor>y\<rfloor> + 1" by linarith+
  then show ?thesis
    unfolding round_half_even_def Let_def by (simp add: abs_if) linarith
qed

lemma pow2_pos [simp]: "0 < pow2 e"
  by (simp add: pow2_def)

lemma pow2_nonpos: "e \<le> 0 \<Longrightarrow> pow2 e = 1 / 2 ^ nat (- e)"
  by (auto simp: pow2_def)

lemma pow2_nonneg: "0 \<le> e \<Longrightarrow> pow2 e = 2 ^ nat e"
  by (simp add: pow2_def)

lemma floor_log2_less:
  assumes "0 < x" and "x < 2 ^ k"
  shows "floor_log2 x < int k"
proof (cases "1 \<le> x")
  case True
  have "\<lfloor>x\<rfloor> < 2 ^ k"
    using assms(2) by (metis floor_less_iff of_int_numeral of_int_power)
  then have "bitlen \<lfloor>x\<rfloor> \<le> int k" by (simp add: bitlen_le_iff_power)
  then show ?thesis using True by (simp add: floor_log2_def)
next
  case False
  then have "1 < 1 / x" using assms(1) by (simp add: field_simps)
  then have "2 \<le> \<lceil>1 / x\<rceil>" by linarith
  then have "1 \<le> bitlen (\<lceil>1 / x\<rceil> - 1)" by (simp add: bitlen_ge_iff_power)
  then show ?thesis using False by (simp add: floor_log2_def)
qed

lemma floor_log2_lower:
  assumes "1 \<le> x"
  shows "0 \<le> floor_log2 x \<and> 2 ^ nat (floor_log2 x) \<le> x"
proof -
  have pos: "0 < \<lfloor>x\<rfloor>" using assms by linarith
  have b: "2 ^ nat (bitlen \<lfloor>x\<rfloor> - 1) \<le> \<lfloor>x\<rfloor>" using bitlen_bounds [OF pos] by simp
  have "1 \<le> bitlen \<lfloor>x\<rfloor>" using pos by (simp add: bitlen_ge_iff_power)
  moreover have "(2::rat) ^ nat (bitlen \<lfloor>x\<rfloor> - 1) \<le> of_int \<lfloor>x\<rfloor>"
    using b by (metis of_int_le_iff of_int_numeral of_int_power)
  moreover have "of_int \<lfloor>x\<rfloor> \<le> x" by simp
  ultimately have "1 \<le> bitlen \<lfloor>x\<rfloor> \<and> (2::rat) ^ nat (bitlen \<lfloor>x\<rfloor> - 1) \<le> x"
    by linarith
  then show ?thesis using assms by (simp add: floor_log2_def)
qed

lemma floor_log2_neg: "0 < x \<Longrightarrow> x < 1 \<Longrightarrow> floor_log2 x < 0"
  using floor_log2_less [of x 0] by simp


lemma grid_exp_nonpos:
  assumes "0 < x" and "x < 2 ^ 53"
  shows "grid_exp x \<le> 0"
  using floor_log2_less [OF assms] assms(1) by (simp add: grid_exp_def)

lemma round_double_nonzero:
  "x \<noteq> 0 \<Longrightarrow> round_double x =
     (if 2 ^ 1024 \<le> \<bar>of_int (round_half_even (x / pow2 (grid_exp x)))\<bar> * pow2 (grid_exp x)
      then (if 0 < x then PosInf else NegInf)
      else Finite (of_int (round_half_even (x / pow2 (grid_exp x))) * pow2 (grid_exp x)))"
  by (simp add: round_double_def Let_def)

lemma round_double_le_int:
  assumes "0 < x" and "x \<le> of_int N" and "N < 2 ^ 53"
  shows "\<exists>v. round_double x = Finite v \<and> 0 \<le> v \<and> v \<le> of_int N"
proof -
  have "(of_int N :: rat) < 2 ^ 53"
    using assms(3) by (metis of_int_less_iff of_int_numeral of_int_power)
  then have x53: "x < 2 ^ 53" using assms(2) by linarith
  define s where "s = nat (- grid_exp x)"
  have p: "pow2 (grid_exp x) = 1 / 2 ^ s"
    using grid_exp_nonpos [OF assms(1) x53] by (simp add: pow2_nonpos s_def)
  define m where "m = round_half_even (x * 2 ^ s)"
  have y_le: "x * 2 ^ s \<le> of_int (N * 2 ^ s)"
    using assms(2) by (simp add: mult_right_mono)
  have "m \<le> \<lceil>x * 2 ^ s\<rceil>" unfolding m_def by (rule round_half_even_le)
  also have "\<dots> \<le> N * 2 ^ s" using y_le by (simp only: ceiling_le_iff)
  finally have m_le: "m \<le> N * 2 ^ s" .
  have "0 \<le> \<lfloor>x * 2 ^ s\<rfloor>" using assms(1) by simp
  also have "\<dots> \<le> m" unfolding m_def by (rule round_half_even_ge)
  finally have m_ge: "0 \<le> m" .
  have v_le: "of_int m / 2 ^ s \<le> (of_int N :: rat)"
  proof -
    have "(of_int m :: rat) \<le> of_int (N * 2 ^ s)" using m_le by (simp only: of_int_le_iff)
    then show ?thesis by (simp add: field_simps)
  qed
  have v_ge: "0 \<le> (of_int m :: rat) / 2 ^ s" using m_ge by simp
  have "\<not> 2 ^ 1024 \<le> \<bar>of_int m :: rat\<bar> * (1 / 2 ^ s)"
  proof -
    have "\<bar>of_int m :: rat\<bar> * (1 / 2 ^ s) = of_int m / 2 ^ s" using m_ge by simp
    moreover have "(2::rat) ^ 53 < 2 ^ 1024" by simp
    ultimately show ?thesis using v_le \<open>(of_int N :: rat) < 2 ^ 53\<close> by linarith
  qed
  then have "round_double x = Finite (of_int m / 2 ^ s)"
    using assms(1) by (simp add: round_double_nonzero p m_def)
  then show ?thesis using v_le v_ge by blast
qed

lemma round_double_ge_int:
  assumes "0 < x" and "of_int N \<le> x" and "N < 2 ^ 53"
  shows "round_double x = PosInf \<or> (\<exists>v. round_double x = Finite v \<and> of_int N \<le> v)"
proof -
  define m where "m = round_half_even (x / pow2 (grid_exp x))"
  have "of_int N \<le> of_int m * pow2 (grid_exp x)"
  proof (cases "grid_exp x \<le> 0")
    case True
    define s where "s = nat (- grid_exp x)"
    have p: "pow2 (grid_exp x) = 1 / 2 ^ s" using True by (simp add: pow2_nonpos s_def)
    have "of_int (N * 2 ^ s) \<le> x * 2 ^ s" using assms(2) by (simp add: mult_right_mono)
    then have "N * 2 ^ s \<le> \<lfloor>x * 2 ^ s\<rfloor>" by (simp only: le_floor_iff)
    also have "\<dots> \<le> m" unfolding m_def p by (simp add: round_half_even_ge)
    finally have "(of_int (N * 2 ^ s) :: rat) \<le> of_int m" by (simp only: of_int_le_iff)
    then show ?thesis unfolding p by (simp add: field_simps)
  next
    case False
    then have e: "grid_exp x = floor_log2 x - 52" "0 < floor_log2 x - 52"
      using assms(1) by (simp_all add: grid_exp_def max_def split: if_splits)
    have x1: "1 \<le> x"
    proof (rule ccontr)
      assume "\<not> 1 \<le> x"
      then have "floor_log2 x < 0" using assms(1) by (simp add: floor_log2_neg)
      then show False using e(2) by simp
    qed
    define t where "t = nat (floor_log2 x - 52)"
    have fl: "nat (floor_log2 x) = t + 52" using e(2) by (simp add: t_def)
    have p: "pow2 (grid_exp x) = 2 ^ t" using e by (simp add: pow2_nonneg t_def)
    have "(2::rat) ^ (t + 52) \<le> x" using floor_log2_lower [OF x1] by (simp add: fl)
    then have "of_int (2 ^ 52) \<le> x / 2 ^ t" by (simp add: field_simps power_add)
    then have "2 ^ 52 \<le> \<lfloor>x / 2 ^ t\<rfloor>" by (simp only: le_floor_iff)
    also have "\<dots> \<le> m" unfolding m_def p by (rule round_half_even_ge)
    finally have "(of_int (2 ^ 52) :: rat) \<le> of_int m" by (simp only: of_int_le_iff)
    then have "(2::rat) ^ 52 * 2 ^ t \<le> of_int m * 2 ^ t" by (simp add: mult_right_mono)
    moreover have "(2::rat) ^ 53 \<le> 2 ^ 52 * 2 ^ t"
    proof -
      have "0 < t" using e(2) by (simp add: t_def)
      then obtain u where "t = Suc u" by (cases t) auto
      then show ?thesis by simp
    qed
    moreover have "(of_int N :: rat) < 2 ^ 53"
      using assms(3) by (metis of_int_less_iff of_int_numeral of_int_power)
    ultimately show ?thesis unfolding p by linarith
  qed
  then show ?thesis
    using assms(1) by (simp add: round_double_nonzero m_def)
qed

lemma round_double_int:
  assumes "0 \<le> N" and "N < 2 ^ 53"
  shows "round_double (of_int N) = Finite (of_int N)"
proof (cases "N = 0")
  case True
  then show ?thesis by (simp add: round_double_def)
next
  case False
  then have pos: "0 < (of_int N :: rat)" using assms(1) by simp
  obtain v where v: "round_double (of_int N) = Finite v" "v \<le> of_int N"
    using round_double_le_int [OF pos _ assms(2)] by auto
  have "of_int N \<le> v"
    using round_double_ge_int [OF pos _ assms(2)] v(1) by auto
  then show ?thesis using v by simp
qed

lemma pow2_mono: "a \<le> b \<Longrightarrow> pow2 a \<le> pow2 b"
proof -
  assume ab: "a \<le> b"
  consider "0 \<le> a" | "a < 0" "0 \<le> b" | "b < 0" using ab by linarith
  then show ?thesis
  proof cases
    case 1
    then show ?thesis using ab by (simp add: pow2_def power_increasing)
  next
    case 2
    have "1 / 2 ^ nat (- a) \<le> (1::rat)" by (simp add: field_simps)
    moreover have "(1::rat) \<le> 2 ^ nat b" by simp
    ultimately have "1 / 2 ^ nat (- a) \<le> (2::rat) ^ nat b" by linarith
    then show ?thesis using 2 by (simp add: pow2_def)
  next
    case 3
    then have "nat (- b) \<le> nat (- a)" using ab by simp
    then have "(2::rat) ^ nat (- b) \<le> 2 ^ nat (- a)" by (simp add: power_increasing)
    then show ?thesis using 3 ab by (simp add: pow2_def field_simps)
  qed
qed

lemma round_double_close:
  assumes "0 < x" and "x < 2 ^ k" and "k \<le> 53"
  shows "\<exists>v. round_double x = Finite v \<and> \<bar>v - x\<bar> \<le> pow2 (int k - 53) / 2"
proof -
  define e where "e = grid_exp x"
  define m where "m = round_half_even (x / pow2 e)"
  have fl: "floor_log2 x < int k" using assms(1,2) by (rule floor_log2_less)
  have "e \<le> int k - 53" using fl assms(1,3) by (simp add: e_def grid_exp_def)
  then have pe: "pow2 e \<le> pow2 (int k - 53)" by (rule pow2_mono)
  have "\<bar>of_int m - x / pow2 e\<bar> \<le> 1 / 2" unfolding m_def by (rule round_half_even_close)
  then have "\<bar>of_int m - x / pow2 e\<bar> * pow2 e \<le> 1 / 2 * pow2 e"
    by (rule mult_right_mono) (simp add: less_imp_le)
  moreover have "\<bar>of_int m - x / pow2 e\<bar> * pow2 e = \<bar>of_int m * pow2 e - x\<bar>"
  proof -
    have "\<bar>pow2 e\<bar> = pow2 e" by (simp add: less_imp_le)
    then have "\<bar>of_int m - x / pow2 e\<bar> * pow2 e = \<bar>(of_int m - x / pow2 e) * pow2 e\<bar>"
      by (simp add: abs_mult)
    also have "(of_int m - x / pow2 e) * pow2 e = of_int m * pow2 e - x"
    proof -
      have "pow2 e \<noteq> 0" by (metis less_irrefl pow2_pos)
      then show ?thesis by (simp add: field_simps)
    qed
    finally show ?thesis .
  qed
  ultimately have close: "\<bar>of_int m * pow2 e - x\<bar> \<le> pow2 (int k - 53) / 2"
    using pe by linarith
  have "pow2 (int k - 53) \<le> pow2 0" using assms(3) by (intro pow2_mono) simp
  then have half: "pow2 (int k - 53) / 2 \<le> 1" by (simp add: pow2_def)
  have "(2::rat) ^ k \<le> 2 ^ 53" using assms(3) by (intro power_increasing) simp_all
  then have big: "x + 1 < 2 ^ 1024"
  proof -
    have "(2::rat) ^ 53 + 1 < 2 ^ 1024" by simp
    then show ?thesis using assms(2) \<open>(2::rat) ^ k \<le> 2 ^ 53\<close> by linarith
  qed
  have m_ge: "0 \<le> m"
  proof -
    have "0 \<le> x / pow2 e" using assms(1) pow2_pos [of e] by (simp add: less_imp_le)
    then have "0 \<le> \<lfloor>x / pow2 e\<rfloor>" by simp
    also have "\<dots> \<le> m" unfolding m_def by (rule round_half_even_ge)
    finally show ?thesis .
  qed
  have "\<bar>of_int m :: rat\<bar> * pow2 e = of_int m * pow2 e" using m_ge by simp
  moreover have "of_int m * pow2 e \<le> x + 1" using close half by linarith
  ultimately have "\<not> 2 ^ 1024 \<le> \<bar>of_int m :: rat\<bar> * pow2 e" using big by linarith
  then have "round_double x = Finite (of_int m * pow2 e)"
    using assms(1) by (simp add: round_double_nonzero m_def e_def)
  then show ?thesis using close by blast
qed

section \<open>Random subsampling (\<open>vid_folder_cut_frame.py\<close>, \<open>process_folder\<close>)\<close>

text \<open>
  The random generator is a parameter: \<open>rng i\<close> is the raw number behind the \<open>i\<close>-th
  draw of a call, and \<open>randbelow(m)\<close> reduces it to the range below \<open>m\<close>. Every sequence
  of draws within the ranges comes from some \<open>rng\<close>, so a statement for all \<open>rng\<close> is a
  statement about every outcome of the selection; how likely an outcome is, is not
  modelled.

  \<open>random.sample(population, k)\<close> raises \<open>ValueError\<close> unless \<open>0 \<le> k \<le> len(population)\<close>.
  Otherwise it draws \<open>k\<close> positions without replacement; this is its variant with a
  pool: the drawn element leaves the pool, the last element of the pool takes its place.
\<close>

fun sample_loop :: "(nat \<Rightarrow> nat) \<Rightarrow> nat \<Rightarrow> nat \<Rightarrow> nat \<Rightarrow> 'a list \<Rightarrow> 'a list" where
  "sample_loop rng n i 0 pool = []"
| "sample_loop rng n i (Suc r) pool =
     (let j = rng i mod (n - i)
      in pool ! j # sample_loop rng n (i + 1) r (pool[j := pool ! (n - i - 1)]))"

definition sample :: "(nat \<Rightarrow> nat) \<Rightarrow> 'a list \<Rightarrow> int \<Rightarrow> py_error + 'a list" where
  "sample rng population k =
     (if 0 \<le> k \<and> k \<le> int (length population)
      then Inr (sample_loop rng (length population) 0 (nat k) population)
      else Inl ValueError)"

text \<open>
  \<open>remove_frame\<close> on the folder: \<open>os.remove\<close> deletes a file; for anything else it
  raises, the exception is caught and the result is \<open>False\<close>. The tasks of the worker
  pool delete different files and do not depend on each other; \<open>imap\<close> returns their
  results in the order of the tasks, so they are run here one after the other.
\<close>

definition remove_frame :: "string \<times> bool \<Rightarrow> dir \<Rightarrow> dir \<times> bool" where
  "remove_frame = (\<lambda>(frame_path, should_remove) folder.
     if should_remove
     then (case map_of folder frame_path of
             Some (File content) \<Rightarrow> (filter (\<lambda>(name, nd). name \<noteq> frame_path) folder, True)
           | _ \<Rightarrow> (folder, False))
     else (folder, False))"

fun run_tasks :: "(string \<times> bool) list \<Rightarrow> dir \<Rightarrow> dir \<times> bool list" where
  "run_tasks [] folder = (folder, [])"
| "run_tasks (task # tasks) folder =
     (case remove_frame task folder of
        (folder', result) \<Rightarrow>
          (case run_tasks tasks folder' of (folder'', results) \<Rightarrow> (folder'', result # results)))"

definition is_jpg :: "string \<Rightarrow> bool" where
  "is_jpg f = endswith (lower f) ''.jpg''"

text \<open>
  \<open>process_folder\<close>: the folder is its listing. The result is the folder afterwards
  and either the exception raised or the triple \<open>(total_frames, frames_to_keep,
  removed_count)\<close>. An exception is raised before the first deletion, so the folder is
  then as it was.
\<close>

definition process_folder ::
  "(nat \<Rightarrow> nat) \<Rightarrow> dir \<Rightarrow> pyfloat \<Rightarrow> dir \<times> (py_error + int \<times> int \<times> int)" where
  "process_folder rng folder keep_percentage =
     (let all_frames = filter is_jpg (map fst folder);
          total_frames = int (length all_frames)
      in if total_frames = 0 then (folder, Inr (0, 0, 0))
         else
           case int_times_float total_frames keep_percentage of
             Inl e \<Rightarrow> (folder, Inl e)
           | Inr product \<Rightarrow>
              (case int_of_float product of
                 Inl e \<Rightarrow> (folder, Inl e)
               | Inr frames_to_keep \<Rightarrow>
                  (case sample rng all_frames frames_to_keep of
                     Inl e \<Rightarrow> (folder, Inl e)
                   | Inr frames_to_keep_list \<Rightarrow>
                      (case run_tasks
                              (map (\<lambda>frame. (frame, frame \<notin> set frames_to_keep_list)) all_frames)
                              folder of
                         (folder', results) \<Rightarrow>
                           (folder', Inr (total_frames, frames_to_keep,
                                          int (length (filter (\<lambda>b. b) results))))))))"

section \<open>Batching (\<open>shuffle_datasets.py\<close>, \<open>shuffle_and_split_pairs\<close>)\<close>

text \<open>
  \<open>random.shuffle\<close>: for \<open>i\<close> from the last index down to 1, the element at \<open>i\<close> is
  exchanged with the one at a random index \<open>j \<le> i\<close>. The draws are numbered from 0.
\<close>

fun shuffle_loop :: "(nat \<Rightarrow> nat) \<Rightarrow> nat \<Rightarrow> nat \<Rightarrow> 'a list \<Rightarrow> 'a list" where
  "shuffle_loop rng d 0 x = x"
| "shuffle_loop rng d (Suc i) x =
     (let j = rng d mod (Suc i + 1)
      in shuffle_loop rng (d + 1) i (x[Suc i := x ! j, j := x ! Suc i]))"

definition shuffle :: "(nat \<Rightarrow> nat) \<Rightarrow> 'a list \<Rightarrow> 'a list" where
  "shuffle rng x = shuffle_loop rng 0 (length x - 1) x"

definition BATCH_SIZE :: int where
  "BATCH_SIZE = 500"

text \<open>The slice \<open>xs[a:b]\<close> for \<open>0 \<le> a\<close> and \<open>0 \<le> b\<close>.\<close>

definition slice :: "'a list \<Rightarrow> nat \<Rightarrow> nat \<Rightarrow> 'a list" where
  "slice xs a b = take (b - a) (drop a xs)"

definition shuffle_and_split_pairs :: "(nat \<Rightarrow> nat) \<Rightarrow> 'a list \<Rightarrow> py_error + 'a list list" where
  "shuffle_and_split_pairs rng pairs =
     (let shuffled = shuffle rng pairs;
          total_pairs = int (length shuffled)
      in case true_div total_pairs BATCH_SIZE of
           Inl e \<Rightarrow> Inl e
         | Inr ratio \<Rightarrow>
            (case math_ceil ratio of
               Inl e \<Rightarrow> Inl e
             | Inr total_batches \<Rightarrow>
                 Inr (map (\<lambda>i. let start_index = int i * BATCH_SIZE;
                                   end_index = min (start_index + BATCH_SIZE) total_pairs
                               in slice shuffled (nat start_index) (nat end_index))
                        [0..<nat total_batches])))"


section \<open>Facts about sampling and deleting\<close>

lemma take_update_last:
  assumes "Suc m \<le> length pool" and "j \<le> m"
  shows "mset (take (Suc m) pool) = {#pool ! j#} + mset (take m (pool[j := pool ! m]))"
proof -
  have t: "take (Suc m) pool = take m pool @ [pool ! m]"
    using assms(1) by (simp add: take_Suc_conv_app_nth)
  show ?thesis
  proof (cases "j = m")
    case True
    then show ?thesis using t by simp
  next
    case False
    then have jm: "j < m" using assms(2) by simp
    have len: "j < length (take m pool)" using jm assms(1) by simp
    have "take m (pool[j := pool ! m]) = (take m pool)[j := pool ! m]"
      by (simp add: take_update_swap)
    then have "mset (take m (pool[j := pool ! m]))
        = mset (take m pool) - {#take m pool ! j#} + {#pool ! m#}"
      using len by (simp add: mset_update)
    moreover have "take m pool ! j = pool ! j" using jm by simp
    moreover have "pool ! j \<in># mset (take m pool)"
      using len \<open>take m pool ! j = pool ! j\<close> by (metis nth_mem set_mset_mset)
    ultimately show ?thesis using t by simp
  qed
qed

lemma sample_loop_props:
  "i + r \<le> n \<Longrightarrow> n = length pool \<Longrightarrow>
   length (sample_loop rng n i r pool) = r
   \<and> mset (sample_loop rng n i r pool) \<subseteq># mset (take (n - i) pool)"
proof (induction r arbitrary: i pool)
  case 0
  then show ?case by simp
next
  case (Suc r)
  define m where "m = n - i - 1"
  define j where "j = rng i mod (n - i)"
  have ni: "n - i = Suc m" using Suc.prems(1) by (simp add: m_def)
  have jm: "j \<le> m" unfolding j_def ni by (metis less_Suc_eq_le mod_less_divisor zero_less_Suc)
  have len: "Suc m \<le> length pool" using Suc.prems ni by simp
  define pool' where "pool' = pool[j := pool ! m]"
  have IH: "length (sample_loop rng n (i + 1) r pool') = r
     \<and> mset (sample_loop rng n (i + 1) r pool') \<subseteq># mset (take (n - (i + 1)) pool')"
    using Suc.prems by (intro Suc.IH) (simp_all add: pool'_def)
  have m': "n - (i + 1) = m" by (simp add: m_def)
  have split: "mset (take (Suc m) pool) = {#pool ! j#} + mset (take m pool')"
    unfolding pool'_def using len jm by (rule take_update_last)
  have unfold: "sample_loop rng n i (Suc r) pool = pool ! j # sample_loop rng n (i + 1) r pool'"
    by (simp add: Let_def j_def pool'_def m_def)
  show ?case
    unfolding unfold ni split using IH unfolding m' by simp
qed

lemma sample_props:
  assumes "0 \<le> k" and "k \<le> int (length population)"
  shows "\<exists>s. sample rng population k = Inr s \<and> int (length s) = k \<and> mset s \<subseteq># mset population"
proof -
  let ?s = "sample_loop rng (length population) 0 (nat k) population"
  have "0 + nat k \<le> length population" using assms by simp
  from sample_loop_props [OF this refl, of rng]
  have "length ?s = nat k \<and> mset ?s \<subseteq># mset population" by simp
  then show ?thesis using assms by (simp add: sample_def)
qed

lemma sample_error:
  "\<not> (0 \<le> k \<and> k \<le> int (length population)) \<Longrightarrow> sample rng population k = Inl ValueError"
  by (simp add: sample_def)

lemma submultiset_distinct:
  assumes "mset s \<subseteq># mset p" and "distinct p"
  shows "distinct s \<and> set s \<subseteq> set p"
proof -
  have "count (mset s) a \<le> 1" for a
  proof -
    have "count (mset s) a \<le> count (mset p) a" using assms(1) by (rule mset_subset_eq_count)
    also have "\<dots> \<le> 1" using assms(2) by (simp add: distinct_count_atmost_1)
    finally show ?thesis .
  qed
  then have "count (mset s) a = (if a \<in> set s then 1 else 0)" for a
  proof (cases "a \<in> set s")
    case True
    then have "0 < count (mset s) a" by (simp only: count_greater_zero_iff set_mset_mset)
    with \<open>\<And>a. count (mset s) a \<le> 1\<close> [of a] have "count (mset s) a = 1" by linarith
    then show ?thesis using True by simp
  next
    case False
    then show ?thesis by simp
  qed
  then have "distinct s" by (simp only: distinct_count_atmost_1) simp
  moreover have "set s \<subseteq> set p" using assms(1) by (metis set_mset_mono set_mset_mset)
  ultimately show ?thesis by simp
qed

lemma map_of_filter_other:
  "f' \<noteq> f \<Longrightarrow> map_of (filter (\<lambda>(name, nd). name \<noteq> f) folder) f' = map_of folder f'"
  by (induction folder) auto

lemma run_tasks_eq:
  assumes "distinct fs"
    and "\<forall>f \<in> set fs. \<exists>content. map_of folder f = Some (File content)"
  shows "run_tasks (map (\<lambda>frame. (frame, frame \<notin> K)) fs) folder =
           (filter (\<lambda>(name, nd). \<not> (name \<in> set fs \<and> name \<notin> K)) folder,
            map (\<lambda>frame. frame \<notin> K) fs)"
  using assms
proof (induction fs arbitrary: folder)
  case Nil
  then show ?case by simp
next
  case (Cons f fs)
  have d: "distinct fs" "f \<notin> set fs" using Cons.prems(1) by simp_all
  show ?case
  proof (cases "f \<in> K")
    case True
    have one: "remove_frame (f, False) folder = (folder, False)"
      by (simp add: remove_frame_def)
    have files: "\<forall>f \<in> set fs. \<exists>content. map_of folder f = Some (File content)"
      using Cons.prems(2) by simp
    have same: "filter (\<lambda>(name, nd). \<not> (name \<in> set fs \<and> name \<notin> K)) folder
        = filter (\<lambda>(name, nd). \<not> (name \<in> set (f # fs) \<and> name \<notin> K)) folder"
      using True by (induction folder) auto
    have "run_tasks (map (\<lambda>frame. (frame, frame \<notin> K)) (f # fs)) folder
        = (filter (\<lambda>(name, nd). \<not> (name \<in> set fs \<and> name \<notin> K)) folder,
           False # map (\<lambda>frame. frame \<notin> K) fs)"
      using True by (simp add: one Cons.IH [OF d(1) files])
    then show ?thesis unfolding same using True by simp
  next
    case False
    obtain content where c: "map_of folder f = Some (File content)"
      using Cons.prems(2) by auto
    let ?folder' = "filter (\<lambda>(name, nd). name \<noteq> f) folder"
    have one: "remove_frame (f, True) folder = (?folder', True)"
      using c by (simp add: remove_frame_def)
    have files: "\<forall>g \<in> set fs. \<exists>content. map_of ?folder' g = Some (File content)"
    proof
      fix g assume g: "g \<in> set fs"
      then have "g \<noteq> f" using d(2) by auto
      then show "\<exists>content. map_of ?folder' g = Some (File content)"
        using Cons.prems(2) g by (simp add: map_of_filter_other)
    qed
    have comp: "filter (\<lambda>(name, nd). \<not> (name \<in> set fs \<and> name \<notin> K)) ?folder'
        = filter (\<lambda>(name, nd). \<not> (name \<in> set (f # fs) \<and> name \<notin> K)) folder"
      using False by (induction folder) auto
    have "run_tasks (map (\<lambda>frame. (frame, frame \<notin> K)) (f # fs)) folder
        = (filter (\<lambda>(name, nd). \<not> (name \<in> set fs \<and> name \<notin> K)) ?folder',
           True # map (\<lambda>frame. frame \<notin> K) fs)"
      using False by (simp add: one Cons.IH [OF d(1) files])
    then show ?thesis unfolding comp using False by simp
  qed
qed

lemma count_removed:
  assumes "distinct fs" and "distinct kept" and "set kept \<subseteq> set fs"
  shows "length (filter (\<lambda>b. b) (map (\<lambda>frame. frame \<notin> set kept) fs)) = length fs - length kept"
proof -
  have "length (filter (\<lambda>b. b) (map (\<lambda>frame. frame \<notin> set kept) fs))
      = length (filter (\<lambda>frame. frame \<notin> set kept) fs)"
    by (simp add: filter_map comp_def)
  also have "\<dots> = card {x \<in> set fs. x \<notin> set kept}"
    using assms(1) by (simp add: distinct_length_filter Int_def conj_commute)
  also have "{x \<in> set fs. x \<notin> set kept} = set fs - set kept" by auto
  also have "card (set fs - set kept) = card (set fs) - card (set kept)"
    using assms(3) by (simp add: card_Diff_subset)
  also have "\<dots> = length fs - length kept"
    using assms(1,2) by (simp add: distinct_card)
  finally show ?thesis .
qed

lemma count_kept:
  assumes "distinct fs" and "distinct kept" and "set kept \<subseteq> set fs"
  shows "length (filter (\<lambda>frame. frame \<in> set kept) fs) = length kept"
proof -
  have "length (filter (\<lambda>frame. frame \<in> set kept) fs) = card {x \<in> set fs. x \<in> set kept}"
    using assms(1) by (simp add: distinct_length_filter Int_def conj_commute)
  also have "{x \<in> set fs. x \<in> set kept} = set kept" using assms(3) by auto
  finally show ?thesis using assms(2) by (simp add: distinct_card)
qed

lemma jpg_entries_are_files:
  assumes "distinct (map fst folder)" and "no_jpg_directory folder"
  shows "\<forall>f \<in> set (filter is_jpg (map fst folder)). \<exists>content. map_of folder f = Some (File content)"
proof
  fix f assume "f \<in> set (filter is_jpg (map fst folder))"
  then obtain nd where nd: "(f, nd) \<in> set folder" and j: "is_jpg f" by auto
  have "nd \<noteq> SubDir"
    using assms(2) nd j by (auto simp: no_jpg_directory_def list_all_iff is_jpg_def)
  then obtain content where "nd = File content" by (cases nd) auto
  then have "map_of folder f = Some (File content)"
    using nd assms(1) by simp
  then show "\<exists>content. map_of folder f = Some (File content)" by blast
qed

lemma float_of_int_small:
  "0 \<le> n \<Longrightarrow> n < 2 ^ 53 \<Longrightarrow> float_of_int n = Inr (Finite (of_int n))"
  by (simp add: float_of_int_def round_double_int)

lemma int_times_float_small:
  "0 \<le> n \<Longrightarrow> n < 2 ^ 53 \<Longrightarrow> int_times_float n x = Inr (float_mul (Finite (of_int n)) x)"
  by (simp add: int_times_float_def float_of_int_small)

lemma process_folder_sampled:
  assumes dist: "distinct (map fst folder)"
    and files: "no_jpg_directory folder"
    and ne: "filter is_jpg (map fst folder) \<noteq> []"
    and prod: "int_times_float (int (length (filter is_jpg (map fst folder)))) keep_percentage
                 = Inr (Finite p)"
    and p0: "0 \<le> p"
    and pF: "\<lfloor>p\<rfloor> \<le> int (length (filter is_jpg (map fst folder)))"
  shows "\<exists>kept. process_folder rng folder keep_percentage =
             (filter (\<lambda>(name, nd). is_jpg name \<longrightarrow> name \<in> set kept) folder,
              Inr (int (length (filter is_jpg (map fst folder))), \<lfloor>p\<rfloor>,
                   int (length (filter is_jpg (map fst folder))) - \<lfloor>p\<rfloor>))
           \<and> distinct kept
           \<and> set kept \<subseteq> set (filter is_jpg (map fst folder))
           \<and> int (length kept) = \<lfloor>p\<rfloor>"
proof -
  let ?all = "filter is_jpg (map fst folder)"
  have dall: "distinct ?all" using dist by simp
  have fl0: "0 \<le> \<lfloor>p\<rfloor>" using p0 by simp
  obtain kept where kept: "sample rng ?all \<lfloor>p\<rfloor> = Inr kept" "int (length kept) = \<lfloor>p\<rfloor>"
    "mset kept \<subseteq># mset ?all"
    using sample_props [OF fl0 pF] by blast
  have dk: "distinct kept" "set kept \<subseteq> set ?all"
    using submultiset_distinct [OF kept(3) dall] by simp_all
  have run: "run_tasks (map (\<lambda>frame. (frame, frame \<notin> set kept)) ?all) folder =
      (filter (\<lambda>(name, nd). \<not> (name \<in> set ?all \<and> name \<notin> set kept)) folder,
       map (\<lambda>frame. frame \<notin> set kept) ?all)"
    using dall jpg_entries_are_files [OF dist files] by (rule run_tasks_eq)
  have filt: "filter (\<lambda>(name, nd). \<not> (name \<in> set ?all \<and> name \<notin> set kept)) folder
      = filter (\<lambda>(name, nd). is_jpg name \<longrightarrow> name \<in> set kept) folder"
    by (rule filter_cong) (auto simp: image_iff)
  have removed: "int (length (filter (\<lambda>b. b) (map (\<lambda>frame. frame \<notin> set kept) ?all)))
      = int (length ?all) - \<lfloor>p\<rfloor>"
    using count_removed [OF dall dk] kept(2) pF by simp
  have len0: "int (length ?all) \<noteq> 0" using ne by (simp only: of_nat_eq_0_iff length_0_conv) simp
  have "process_folder rng folder keep_percentage =
      (filter (\<lambda>(name, nd). is_jpg name \<longrightarrow> name \<in> set kept) folder,
       Inr (int (length ?all), \<lfloor>p\<rfloor>, int (length ?all) - \<lfloor>p\<rfloor>))"
    unfolding process_folder_def Let_def prod sum.case int_of_float.simps if_P [OF p0]
      kept(1) run filt prod.case removed
    using len0 by simp
  then show ?thesis using dk kept(2) by blast
qed

lemma jpgs_after:
  assumes "distinct (map fst folder)" and "distinct kept"
    and "set kept \<subseteq> set (filter is_jpg (map fst folder))"
  shows "length (filter is_jpg (map fst (filter (\<lambda>(name, nd). is_jpg name \<longrightarrow> name \<in> set kept) folder)))
           = length kept"
proof -
  have "filter is_jpg (map fst (filter (\<lambda>(name, nd). is_jpg name \<longrightarrow> name \<in> set kept) folder))
      = filter (\<lambda>frame. frame \<in> set kept) (filter is_jpg (map fst folder))"
    by (induction folder) auto
  then show ?thesis
    using count_kept [of "filter is_jpg (map fst folder)" kept] assms by simp
qed

lemma product_in_range:
  assumes "0 \<le> k" and "k \<le> 1" and "n < 2 ^ 53"
  shows "\<exists>p. round_double (of_nat n * k) = Finite p \<and> 0 \<le> p \<and> p \<le> of_nat n"
proof (cases "of_nat n * k = 0")
  case True
  then show ?thesis by (simp add: round_double_def)
next
  case False
  have "0 \<le> rat_of_nat n * k" using assms(1) by simp
  with False have pos: "0 < rat_of_nat n * k" by linarith
  have "rat_of_nat n * k \<le> rat_of_nat n * 1"
    using assms(2) by (intro mult_left_mono) simp_all
  then have le: "rat_of_nat n * k \<le> of_int (int n)" by simp
  have "int n < 2 ^ 53" using assms(3) by simp
  from round_double_le_int [OF pos le this] show ?thesis by simp
qed

end
